theory Spec2Isabelle
  imports Main "HOL-Library.Word" "HOL-Library.Monad_Syntax"
begin

section \<open>Machine integers, vectors and callables\<close>

text \<open>
  The scheduler of \<^verbatim>\<open>system_scheduler.hpp\<close> and \<^verbatim>\<open>system_scheduler.cpp\<close> is embedded
  with explicit state passing. A function that the C++ leaves without defined behaviour
  on some input (signed overflow of an \<^verbatim>\<open>int\<close>, an index outside a vector, a remainder
  by zero, the call of an empty \<^verbatim>\<open>std::function\<close>) or that does not return there has the
  result \<open>None\<close>; \<open>Some\<close> is a normal return.
\<close>

definition INT_MAX :: int where
  "INT_MAX = 2147483647"

definition INT_MIN :: int where
  "INT_MIN = - 2147483648"

text \<open>The value of an \<^verbatim>\<open>int\<close> expression: defined only when representable in 32 bits.\<close>

definition as_int :: "int \<Rightarrow> int option" where
  "as_int v = (if INT_MIN \<le> v \<and> v \<le> INT_MAX then Some v else None)"

text \<open>The C++ remainder \<^verbatim>\<open>a % b\<close> on \<^verbatim>\<open>int\<close>: it truncates towards zero.\<close>

definition int_rem :: "int \<Rightarrow> int \<Rightarrow> int option" where
  "int_rem a b =
     (if b = 0 \<or> (a = INT_MIN \<and> b = - 1) then None
      else Some (sgn a * (\<bar>a\<bar> mod \<bar>b\<bar>)))"

text \<open>
  \<^verbatim>\<open>std::function\<close>: empty (default constructed, assigned \<^verbatim>\<open>nullptr\<close>, or moved from, as
  libstdc++ and libc++ leave it) or holding a callable.
\<close>

datatype 'a fn = Nullfn | Fn 'a

text \<open>\<^verbatim>\<open>v[i]\<close> on a \<^verbatim>\<open>std::vector\<close>, read and written, and \<^verbatim>\<open>std::move(v[i])\<close>.\<close>

definition vec_at :: "'x list \<Rightarrow> int \<Rightarrow> 'x option" where
  "vec_at v i = (if 0 \<le> i \<and> i < int (length v) then Some (v ! nat i) else None)"

definition vec_store :: "'x list \<Rightarrow> int \<Rightarrow> 'x \<Rightarrow> 'x list option" where
  "vec_store v i x = (if 0 \<le> i \<and> i < int (length v) then Some (v[nat i := x]) else None)"

definition vec_move :: "'a fn list \<Rightarrow> int \<Rightarrow> ('a fn \<times> 'a fn list) option" where
  "vec_move v i =
     (if 0 \<le> i \<and> i < int (length v) then Some (v ! nat i, v[nat i := Nullfn]) else None)"

section \<open>The deque\<close>

definition DEFAULT_CAPACITY :: int where
  "DEFAULT_CAPACITY = 1024"

record 'a lock_free_deque =
  capacity :: int
  buffer :: "'a fn list"
  top_ix :: int
  bottom_ix :: int

definition new_deque :: "'a lock_free_deque" where
  "new_deque =
     \<lparr>capacity = DEFAULT_CAPACITY,
      buffer = replicate (nat DEFAULT_CAPACITY) Nullfn,
      top_ix = 0, bottom_ix = 0\<rparr>"

text \<open>The copy loop of \<^verbatim>\<open>resize\<close>: \<^verbatim>\<open>for (int i = t; i < b; ++i)\<close>.\<close>

function resize_loop ::
  "int \<Rightarrow> int \<Rightarrow> int \<Rightarrow> int \<Rightarrow> 'a fn list \<Rightarrow> 'a fn list \<Rightarrow> 'a fn list option" where
  "resize_loop i b old_capacity new_capacity buf new_buffer =
     (if i < b then
        do {
          src \<leftarrow> int_rem i old_capacity;
          (x, buf') \<leftarrow> vec_move buf src;
          dst \<leftarrow> int_rem i new_capacity;
          new_buffer' \<leftarrow> vec_store new_buffer dst x;
          i' \<leftarrow> as_int (i + 1);
          resize_loop i' b old_capacity new_capacity buf' new_buffer'
        }
      else Some new_buffer)"
  by pat_completeness auto
termination
  by (relation "measure (\<lambda>(i, b, _). nat (b - i))")
     (auto simp: as_int_def split: if_splits)

definition resize :: "'a lock_free_deque \<Rightarrow> 'a lock_free_deque option" where
  "resize d =
     do {
       let old_capacity = capacity d;
       new_capacity \<leftarrow> as_int (old_capacity * 2);
       new_buffer \<leftarrow> (if 0 \<le> new_capacity then Some (replicate (nat new_capacity) Nullfn)
                      else None);
       let t = top_ix d;
       let b = bottom_ix d;
       new_buffer' \<leftarrow> resize_loop t b old_capacity new_capacity (buffer d) new_buffer;
       Some (d\<lparr>buffer := new_buffer', capacity := new_capacity\<rparr>)
     }"

definition push :: "'a lock_free_deque \<Rightarrow> 'a fn \<Rightarrow> 'a lock_free_deque option" where
  "push d task =
     do {
       let b = bottom_ix d;
       let t = top_ix d;
       size \<leftarrow> as_int (b - t);
       let cap = capacity d;
       d1 \<leftarrow> (if size \<ge> cap then resize d else Some d);
       let b = bottom_ix d1;
       let cap = capacity d1;
       slot \<leftarrow> int_rem b cap;
       buf \<leftarrow> vec_store (buffer d1) slot task;
       b1 \<leftarrow> as_int (b + 1);
       Some (d1\<lparr>buffer := buf, bottom_ix := b1\<rparr>)
     }"

text \<open>
  \<^verbatim>\<open>top.compare_exchange_strong(t, t + 1)\<close>: the exchange succeeds exactly when \<^verbatim>\<open>top\<close>
  still holds the expected value.
\<close>

definition compare_exchange_top ::
  "'a lock_free_deque \<Rightarrow> int \<Rightarrow> int \<Rightarrow> bool \<times> 'a lock_free_deque" where
  "compare_exchange_top d expected desired =
     (if top_ix d = expected then (True, d\<lparr>top_ix := desired\<rparr>) else (False, d))"

text \<open>
  \<^verbatim>\<open>pop(task)\<close> run without interruption. The result is the returned flag, the value left
  in the reference parameter \<^verbatim>\<open>task\<close>, and the deque.
\<close>

definition pop ::
  "'a lock_free_deque \<Rightarrow> 'a fn \<Rightarrow> (bool \<times> 'a fn \<times> 'a lock_free_deque) option" where
  "pop d task =
     do {
       b \<leftarrow> as_int (bottom_ix d - 1);
       let d1 = d\<lparr>bottom_ix := b\<rparr>;
       let t = top_ix d1;
       let cap = capacity d1;
       if t \<le> b then
         do {
           slot \<leftarrow> int_rem b cap;
           (task', buf) \<leftarrow> vec_move (buffer d1) slot;
           let d2 = d1\<lparr>buffer := buf\<rparr>;
           if t = b then
             do {
               t1 \<leftarrow> as_int (t + 1);
               let (exchanged, d3) = compare_exchange_top d2 t t1;
               if \<not> exchanged then
                 do {
                   b1 \<leftarrow> as_int (b + 1);
                   Some (False, Nullfn, d3\<lparr>bottom_ix := b1\<rparr>)
                 }
               else Some (True, task', d3)
             }
           else Some (True, task', d2)
         }
       else
         do {
           b1 \<leftarrow> as_int (b + 1);
           Some (False, task, d1\<lparr>bottom_ix := b1\<rparr>)
         }
     }"

text \<open>
  \<^verbatim>\<open>steal(task)\<close> in its two parts. \<open>steal_read\<close> is the loads, the test \<^verbatim>\<open>t < b\<close> and
  the move out of the slot; it yields the loaded \<^verbatim>\<open>t\<close> when the test passed.
  \<open>steal_commit\<close> is the compare-and-swap of \<^verbatim>\<open>top\<close> and the return. Other threads
  can run between the two; \<open>steal\<close> is the call that nothing interrupts.
\<close>

definition steal_read ::
  "'a lock_free_deque \<Rightarrow> 'a fn \<Rightarrow> (int option \<times> 'a fn \<times> 'a lock_free_deque) option" where
  "steal_read d task =
     do {
       let t = top_ix d;
       let b = bottom_ix d;
       let cap = capacity d;
       if t < b then
         do {
           slot \<leftarrow> int_rem t cap;
           (task', buf) \<leftarrow> vec_move (buffer d) slot;
           Some (Some t, task', d\<lparr>buffer := buf\<rparr>)
         }
       else Some (None, task, d)
     }"

definition steal_commit ::
  "int \<Rightarrow> 'a fn \<Rightarrow> 'a lock_free_deque \<Rightarrow> (bool \<times> 'a fn \<times> 'a lock_free_deque) option" where
  "steal_commit t task d =
     do {
       t1 \<leftarrow> as_int (t + 1);
       let (exchanged, d') = compare_exchange_top d t t1;
       if exchanged then Some (True, task, d') else Some (False, task, d')
     }"

definition steal ::
  "'a lock_free_deque \<Rightarrow> 'a fn \<Rightarrow> (bool \<times> 'a fn \<times> 'a lock_free_deque) option" where
  "steal d task =
     do {
       (loaded, task', d1) \<leftarrow> steal_read d task;
       case loaded of
         Some t \<Rightarrow> steal_commit t task' d1
       | None \<Rightarrow> Some (False, task', d1)
     }"

definition empty_deque :: "'a lock_free_deque \<Rightarrow> bool" where
  "empty_deque d = (let t = top_ix d; b = bottom_ix d in t \<ge> b)"

definition size_deque :: "'a lock_free_deque \<Rightarrow> int" where
  "size_deque d = (let t = top_ix d; b = bottom_ix d in if b \<ge> t then b - t else 0)"

section \<open>The priority work queue\<close>

datatype priority_t = LOW | NORMAL | HIGH | CRITICAL

text \<open>\<^verbatim>\<open>static_cast<int>(priority)\<close>.\<close>

fun priority_int :: "priority_t \<Rightarrow> int" where
  "priority_int LOW = 0"
| "priority_int NORMAL = 1"
| "priority_int HIGH = 2"
| "priority_int CRITICAL = 3"

record 'a work_queue_t =
  task_queues :: "'a lock_free_deque list"
  active :: bool

definition new_work_queue :: "'a work_queue_t" where
  "new_work_queue =
     \<lparr>task_queues = replicate (nat (priority_int CRITICAL + 1)) new_deque, active = True\<rparr>"

definition push_task :: "'a work_queue_t \<Rightarrow> int \<Rightarrow> 'a fn \<Rightarrow> 'a work_queue_t option" where
  "push_task q prio task =
     do {
       d \<leftarrow> vec_at (task_queues q) prio;
       d' \<leftarrow> push d task;
       Some (q\<lparr>task_queues := (task_queues q)[nat prio := d']\<rparr>)
     }"

text \<open>
  The loop of \<^verbatim>\<open>pop_task\<close>, entered at \<open>p\<close>:
  \<^verbatim>\<open>for (int p = CRITICAL; p >= LOW; --p) if (task_queues[p]->pop(task)) return true;\<close>
\<close>

function pop_task_loop ::
  "'a work_queue_t \<Rightarrow> int \<Rightarrow> 'a fn \<Rightarrow> (bool \<times> 'a fn \<times> 'a work_queue_t) option" where
  "pop_task_loop q p task =
     (if p \<ge> priority_int LOW then
        do {
          d \<leftarrow> vec_at (task_queues q) p;
          (popped, task', d') \<leftarrow> pop d task;
          let q' = q\<lparr>task_queues := (task_queues q)[nat p := d']\<rparr>;
          if popped then Some (True, task', q') else pop_task_loop q' (p - 1) task'
        }
      else Some (False, task, q))"
  by pat_completeness auto
termination
  by (relation "measure (\<lambda>(q, p, task). nat (p + 1))") auto

definition pop_task ::
  "'a work_queue_t \<Rightarrow> 'a fn \<Rightarrow> (bool \<times> 'a fn \<times> 'a work_queue_t) option" where
  "pop_task q task = pop_task_loop q (priority_int CRITICAL) task"

function steal_task_loop ::
  "'a work_queue_t \<Rightarrow> int \<Rightarrow> 'a fn \<Rightarrow> (bool \<times> 'a fn \<times> 'a work_queue_t) option" where
  "steal_task_loop q p task =
     (if p \<ge> priority_int LOW then
        do {
          d \<leftarrow> vec_at (task_queues q) p;
          (stolen, task', d') \<leftarrow> steal d task;
          let q' = q\<lparr>task_queues := (task_queues q)[nat p := d']\<rparr>;
          if stolen then Some (True, task', q') else steal_task_loop q' (p - 1) task'
        }
      else Some (False, task, q))"
  by pat_completeness auto
termination
  by (relation "measure (\<lambda>(q, p, task). nat (p + 1))") auto

definition steal_task ::
  "'a work_queue_t \<Rightarrow> 'a fn \<Rightarrow> (bool \<times> 'a fn \<times> 'a work_queue_t) option" where
  "steal_task q task = steal_task_loop q (priority_int CRITICAL) task"

definition empty_queue :: "'a work_queue_t \<Rightarrow> bool" where
  "empty_queue q = list_all empty_deque (task_queues q)"

section \<open>The scheduler\<close>

text \<open>
  \<^verbatim>\<open>uint32_t\<close> is \<open>32 word\<close> and \<^verbatim>\<open>size_t\<close> is \<open>64 word\<close>. \<open>worker_threads\<close> holds the
  indices the worker threads were started with. The build modelled is the one
  without \<^verbatim>\<open>__linux__\<close>, where every worker is on NUMA node 0.
\<close>

record 'a system_scheduler =
  priority_level :: priority_t
  work_queues :: "'a work_queue_t list"
  worker_threads :: "nat list"
  stop_flag :: bool
  idle_count :: "32 word"
  active_thread_count :: "32 word"
  min_threads :: "32 word"
  max_threads :: "32 word"
  worker_numa_nodes :: "int list"
  next_queue :: "64 word"
  num_queues :: "64 word"

text \<open>
  The constructor. \<open>hardware_concurrency\<close> is the value of
  \<^verbatim>\<open>std::thread::hardware_concurrency()\<close> on the machine.
\<close>

definition new_system_scheduler ::
  "32 word \<Rightarrow> priority_t \<Rightarrow> 32 word \<Rightarrow> 'a system_scheduler" where
  "new_system_scheduler hardware_concurrency priority thread_count =
     (let init_threads = (if thread_count > 0 then thread_count else hardware_concurrency)
      in \<lparr>priority_level = priority,
          work_queues = replicate (unat init_threads) new_work_queue,
          worker_threads = [0..<unat init_threads],
          stop_flag = False,
          idle_count = 0,
          active_thread_count = init_threads,
          min_threads = init_threads,
          max_threads = init_threads,
          worker_numa_nodes = replicate (unat init_threads) 0,
          next_queue = 0,
          num_queues = ucast init_threads\<rparr>)"

definition scheduler_eq :: "'a system_scheduler \<Rightarrow> 'a system_scheduler \<Rightarrow> bool" where
  "scheduler_eq a b = True"

definition get_priority :: "'a system_scheduler \<Rightarrow> priority_t" where
  "get_priority s = priority_level s"

definition set_priority :: "'a system_scheduler \<Rightarrow> priority_t \<Rightarrow> 'a system_scheduler" where
  "set_priority s priority = s\<lparr>priority_level := priority\<rparr>"

definition get_active_thread_count :: "'a system_scheduler \<Rightarrow> 32 word" where
  "get_active_thread_count s = active_thread_count s"

text \<open>
  The loop of \<^verbatim>\<open>schedule\<close> that walks to an active queue:
  \<^verbatim>\<open>while (!work_queues[chosen].active) chosen = (chosen + 1) % num;\<close>
  It does not return when no queue is active.
\<close>

partial_function (option) next_active ::
  "'a work_queue_t list \<Rightarrow> 64 word \<Rightarrow> 64 word \<Rightarrow> 64 word option" where
  "next_active qs num chosen =
     do {
       q \<leftarrow> vec_at qs (uint chosen);
       if \<not> active q then
         (if num = 0 then None else next_active qs num ((chosen + 1) mod num))
       else Some chosen
     }"

definition schedule ::
  "'a system_scheduler \<Rightarrow> 'a fn \<Rightarrow> priority_t \<Rightarrow> 'a system_scheduler option" where
  "schedule s task priority =
     (if stop_flag s then Some s
      else
        do {
          let num = num_queues s;
          let fetched = next_queue s;
          let s1 = s\<lparr>next_queue := fetched + 1\<rparr>;
          chosen \<leftarrow> (if num = 0 then None else Some (fetched mod num));
          chosen \<leftarrow> next_active (work_queues s1) num chosen;
          q \<leftarrow> vec_at (work_queues s1) (uint chosen);
          q' \<leftarrow> push_task q (priority_int priority) task;
          Some (s1\<lparr>work_queues := (work_queues s1)[unat chosen := q']\<rparr>)
        })"

text \<open>
  The default argument of the declaration
  \<^verbatim>\<open>schedule(std::function<void()> task, priority_t priority = priority_t::NORMAL)\<close>:
  a call that gives no priority.
\<close>

definition schedule_default :: "'a system_scheduler \<Rightarrow> 'a fn \<Rightarrow> 'a system_scheduler option" where
  "schedule_default s task = schedule s task NORMAL"

definition set_stopped :: "'a system_scheduler \<Rightarrow> 'a system_scheduler" where
  "set_stopped s = s\<lparr>stop_flag := True\<rparr>"

text \<open>
  What an \<^verbatim>\<open>exception_ptr\<close> holds. \<^verbatim>\<open>set_error\<close> rethrows it and catches
  \<^verbatim>\<open>std::exception\<close>, which it writes to the error stream; anything else leaves the
  \<^verbatim>\<open>noexcept\<close> function and ends the program.
\<close>

datatype exception_ptr = Null_exception | Std_exception | Other_exception

definition set_error :: "'a system_scheduler \<Rightarrow> exception_ptr \<Rightarrow> 'a system_scheduler option" where
  "set_error s error =
     (case error of
        Null_exception \<Rightarrow> Some s
      | Std_exception \<Rightarrow> Some s
      | Other_exception \<Rightarrow> None)"

section \<open>Bulk submission\<close>

text \<open>
  What a queue slot can hold: a callable of the caller, or the closure that
  \<^verbatim>\<open>bulk_schedule\<close> builds, which captures \<^verbatim>\<open>start\<close>, \<^verbatim>\<open>end\<close> and \<^verbatim>\<open>task\<close> by value.
\<close>

datatype ('t, 'f) callable = Caller 't | Chunk "32 word" "32 word" "'f fn"

text \<open>
  The body of the closure, \<^verbatim>\<open>for (uint32_t i = start; i < end; ++i) task(i);\<close>, entered
  at \<open>i\<close>: the arguments \<^verbatim>\<open>task\<close> is called with, in the order of the calls.
\<close>

function chunk_body :: "32 word \<Rightarrow> 32 word \<Rightarrow> 'f fn \<Rightarrow> 32 word list option" where
  "chunk_body i end task =
     (if i < end then
        (case task of
           Nullfn \<Rightarrow> None
         | Fn f \<Rightarrow> do { rest \<leftarrow> chunk_body (i + 1) end task; Some (i # rest) })
      else Some [])"
  by pat_completeness auto
termination
proof (relation "measure (\<lambda>(i, end, task). unat end - unat i)")
  show "wf (measure (\<lambda>(i, end, task). unat end - unat i))"
    by simp
next
  fix i :: "32 word" and "end" :: "32 word" and task :: "'f fn" and f :: 'f
  assume less: "i < end"
  then have "unat i < unat end"
    by (simp add: word_less_nat_alt)
  moreover have "unat end < 2 ^ 32"
    using unsigned_less [of "end"] by simp
  ultimately have "unat (i + 1) = unat i + 1"
    by (simp add: unat_word_ariths)
  with \<open>unat i < unat end\<close>
  show "((i + 1, end, task), (i, end, task)) \<in> measure (\<lambda>(i, end, task). unat end - unat i)"
    by simp
qed

text \<open>The calls made by running what a slot holds; a caller's callable makes none.\<close>

fun invoke :: "('t, 'f) callable \<Rightarrow> 32 word list option" where
  "invoke (Caller c) = Some []"
| "invoke (Chunk start end task) = chunk_body start end task"

text \<open>
  The bounds \<^verbatim>\<open>start\<close> and \<^verbatim>\<open>end\<close> that the loop of \<^verbatim>\<open>bulk_schedule\<close> computes for a
  chunk, in \<^verbatim>\<open>uint32_t\<close> arithmetic.
\<close>

definition chunk_range :: "32 word \<Rightarrow> 32 word \<Rightarrow> 32 word \<Rightarrow> 32 word \<times> 32 word" where
  "chunk_range chunk_size remainder chunk =
     (let start = chunk * chunk_size + min chunk remainder;
          end = start + chunk_size + (if chunk < remainder then 1 else 0)
      in (start, end))"

text \<open>
  The loop of \<^verbatim>\<open>bulk_schedule\<close>, entered at \<open>chunk\<close>:
  \<^verbatim>\<open>for (uint32_t chunk = 0; chunk < num_chunks; ++chunk)\<close>.
\<close>

function bulk_loop ::
  "('t, 'f) callable system_scheduler \<Rightarrow> 32 word \<Rightarrow> 32 word \<Rightarrow> 32 word \<Rightarrow> 'f fn \<Rightarrow>
     priority_t \<Rightarrow> 32 word \<Rightarrow> ('t, 'f) callable system_scheduler option" where
  "bulk_loop s num_chunks chunk_size remainder task priority chunk =
     (if chunk < num_chunks then
        (let (start, end) = chunk_range chunk_size remainder chunk
         in if start < end then
              do {
                s' \<leftarrow> schedule s (Fn (Chunk start end task)) priority;
                bulk_loop s' num_chunks chunk_size remainder task priority (chunk + 1)
              }
            else bulk_loop s num_chunks chunk_size remainder task priority (chunk + 1))
      else Some s)"
  by pat_completeness auto
termination
proof (relation "measure (\<lambda>(s, num_chunks, cs, r, task, p, chunk). unat num_chunks - unat chunk)")
  show "wf (measure (\<lambda>(s :: ('t, 'f) callable system_scheduler, num_chunks :: 32 word,
      cs :: 32 word, r :: 32 word, task :: 'f fn, p :: priority_t, chunk :: 32 word).
      unat num_chunks - unat chunk))"
    by simp
next
  fix s s' :: "('t, 'f) callable system_scheduler"
    and num_chunks chunk_size remainder chunk x xa :: "32 word"
    and task :: "'f fn" and priority :: priority_t
  assume less: "chunk < num_chunks"
  then have lt: "unat chunk < unat num_chunks"
    by (simp add: word_less_nat_alt)
  moreover have "unat num_chunks < 2 ^ 32"
    using unsigned_less [of num_chunks] by simp
  ultimately have step: "unat (chunk + 1) = unat chunk + 1"
    by (simp add: unat_word_ariths)
  from lt step
  show "((s', num_chunks, chunk_size, remainder, task, priority, chunk + 1),
         (s, num_chunks, chunk_size, remainder, task, priority, chunk))
        \<in> measure (\<lambda>(s, num_chunks, cs, r, task, p, chunk). unat num_chunks - unat chunk)"
    by simp
  from lt step
  show "((s, num_chunks, chunk_size, remainder, task, priority, chunk + 1),
         (s, num_chunks, chunk_size, remainder, task, priority, chunk))
        \<in> measure (\<lambda>(s, num_chunks, cs, r, task, p, chunk). unat num_chunks - unat chunk)"
    by simp
qed

definition bulk_schedule ::
  "('t, 'f) callable system_scheduler \<Rightarrow> 32 word \<Rightarrow> 'f fn \<Rightarrow> priority_t \<Rightarrow>
     ('t, 'f) callable system_scheduler option" where
  "bulk_schedule s n task priority =
     (let active_threads = active_thread_count s;
          num_chunks = max (active_threads * 8) n;
          num_chunks = (if num_chunks = 0 then 1 else num_chunks);
          chunk_size = n div num_chunks;
          remainder = n mod num_chunks
      in bulk_loop s num_chunks chunk_size remainder task priority 0)"

section \<open>The workers\<close>

text \<open>What one pass through the body of \<^verbatim>\<open>while (true)\<close> in \<^verbatim>\<open>worker_loop\<close> ends in.\<close>

datatype 'a pass = Ran 'a | Idle | Exit

text \<open>
  \<^verbatim>\<open>steal_indices\<close> as built before the loop: every queue index but the worker's own.
\<close>

definition initial_steal_indices :: "'a system_scheduler \<Rightarrow> nat \<Rightarrow> nat list" where
  "initial_steal_indices s thread_id =
     filter (\<lambda>i. i \<noteq> thread_id) [0..<length (work_queues s)]"

text \<open>The steal sweep: \<^verbatim>\<open>for (size_t steal_id : steal_indices)\<close>, left at the first success.\<close>

fun steal_sweep ::
  "'a work_queue_t list \<Rightarrow> nat list \<Rightarrow> 'a fn \<Rightarrow> (bool \<times> 'a fn \<times> 'a work_queue_t list) option" where
  "steal_sweep qs [] task = Some (False, task, qs)"
| "steal_sweep qs (steal_id # rest) task =
     do {
       q \<leftarrow> vec_at qs (int steal_id);
       if active q then
         do {
           (stolen, task', q') \<leftarrow> steal_task q task;
           let qs' = qs[steal_id := q'];
           if stolen then Some (True, task', qs') else steal_sweep qs' rest task'
         }
       else steal_sweep qs rest task
     }"

text \<open>
  One pass of worker \<open>thread_id\<close>, run without interruption. \<open>order\<close> is \<^verbatim>\<open>steal_indices\<close>
  as \<^verbatim>\<open>std::shuffle\<close> leaves it in this pass. Running a task is recorded in the result;
  the call of an empty \<^verbatim>\<open>std::function\<close> throws in the worker thread.
\<close>

definition worker_pass ::
  "'a system_scheduler \<Rightarrow> nat \<Rightarrow> nat list \<Rightarrow> ('a pass \<times> 'a system_scheduler) option" where
  "worker_pass s thread_id order =
     do {
       let task = Nullfn;
       (found_task, task, qs) \<leftarrow>
         (if thread_id < length (work_queues s) then
            do {
              q \<leftarrow> vec_at (work_queues s) (int thread_id);
              (popped, task', q') \<leftarrow> pop_task q task;
              Some (popped, task', (work_queues s)[thread_id := q'])
            }
          else Some (False, task, work_queues s));
       (found_task, task, qs) \<leftarrow>
         (if \<not> found_task then steal_sweep qs order task else Some (found_task, task, qs));
       let s1 = s\<lparr>work_queues := qs\<rparr>;
       if found_task then
         (case task of Nullfn \<Rightarrow> None | Fn c \<Rightarrow> Some (Ran c, s1))
       else
         do {
           let s2 = s1\<lparr>idle_count := idle_count s1 + 1\<rparr>;
           let s3 = s2\<lparr>idle_count := idle_count s2 - 1\<rparr>;
           if stop_flag s3 \<and> list_all empty_queue (work_queues s3) then Some (Exit, s3)
           else Some (Idle, s3)
         }
     }"

text \<open>
  \<^verbatim>\<open>worker_loop\<close> of one worker while no other thread runs: passes until the exit.
  \<open>shuffle\<close> stands for \<^verbatim>\<open>std::shuffle\<close> with the worker's generator; \<open>executed\<close>
  collects the tasks run, in order. The loop does not return while the stop flag is
  unset.
\<close>

partial_function (option) worker_loop ::
  "(nat list \<Rightarrow> nat list) \<Rightarrow> nat \<Rightarrow> nat list \<Rightarrow> 'a system_scheduler \<Rightarrow> 'a list \<Rightarrow>
     ('a system_scheduler \<times> 'a list) option" where
  "worker_loop shuffle thread_id steal_indices s executed =
     do {
       let order = shuffle steal_indices;
       (p, s') \<leftarrow> worker_pass s thread_id order;
       case p of
         Exit \<Rightarrow> Some (s', executed)
       | Idle \<Rightarrow> worker_loop shuffle thread_id order s' executed
       | Ran c \<Rightarrow> worker_loop shuffle thread_id order s' (executed @ [c])
     }"

text \<open>
  The destructor of a scheduler with a single worker thread: it sets the stop flag and
  joins the worker, which from then on runs alone.
\<close>

definition destroy_single ::
  "(nat list \<Rightarrow> nat list) \<Rightarrow> 'a system_scheduler \<Rightarrow> ('a system_scheduler \<times> 'a list) option" where
  "destroy_single shuffle s =
     (let s1 = s\<lparr>stop_flag := True\<rparr>
      in worker_loop shuffle 0 (initial_steal_indices s1 0) s1 [])"

section \<open>Sequences of operations\<close>

text \<open>Completed operations on one deque, and what each returned.\<close>

datatype 'a deque_op = Push "'a fn" | Pop | Steal

fun deque_step ::
  "'a lock_free_deque \<Rightarrow> 'a deque_op \<Rightarrow> (bool \<times> 'a lock_free_deque) option" where
  "deque_step d (Push task) = do { d' \<leftarrow> push d task; Some (True, d') }"
| "deque_step d Pop = do { (popped, task, d') \<leftarrow> pop d Nullfn; Some (popped, d') }"
| "deque_step d Steal = do { (stolen, task, d') \<leftarrow> steal d Nullfn; Some (stolen, d') }"

text \<open>
  A sequence of completed operations from \<open>d\<close>, with the number of live tasks: those
  pushed and not yet handed out by a successful \<open>pop\<close> or \<open>steal\<close>.
\<close>

fun deque_run ::
  "'a lock_free_deque \<Rightarrow> int \<Rightarrow> 'a deque_op list \<Rightarrow> ('a lock_free_deque \<times> int) option" where
  "deque_run d live [] = Some (d, live)"
| "deque_run d live (op # ops) =
     do {
       (done, d') \<leftarrow> deque_step d op;
       deque_run d' (case op of Push task \<Rightarrow> live + 1
                     | _ \<Rightarrow> if done then live - 1 else live) ops
     }"

text \<open>The operations on a scheduler, by callers and by its workers.\<close>

datatype ('t, 'f) operation =
    Schedule "('t, 'f) callable fn" priority_t
  | Bulk_schedule "32 word" "'f fn" priority_t
  | Set_priority priority_t
  | Set_stopped
  | Set_error exception_ptr
  | Worker_pass nat "nat list"

fun perform ::
  "('t, 'f) callable system_scheduler \<Rightarrow> ('t, 'f) operation \<Rightarrow>
     ('t, 'f) callable system_scheduler option" where
  "perform s (Schedule task priority) = schedule s task priority"
| "perform s (Bulk_schedule n task priority) = bulk_schedule s n task priority"
| "perform s (Set_priority priority) = Some (set_priority s priority)"
| "perform s Set_stopped = Some (set_stopped s)"
| "perform s (Set_error error) = set_error s error"
| "perform s (Worker_pass thread_id order) =
     do { (p, s') \<leftarrow> worker_pass s thread_id order; Some s' }"

fun perform_all ::
  "('t, 'f) callable system_scheduler \<Rightarrow> ('t, 'f) operation list \<Rightarrow>
     ('t, 'f) callable system_scheduler option" where
  "perform_all s [] = Some s"
| "perform_all s (op # ops) = do { s' \<leftarrow> perform s op; perform_all s' ops }"

text \<open>Submitting a list of tasks with their priorities, in order.\<close>

fun schedule_all ::
  "'a system_scheduler \<Rightarrow> ('a fn \<times> priority_t) list \<Rightarrow> 'a system_scheduler option" where
  "schedule_all s [] = Some s"
| "schedule_all s ((task, priority) # rest) =
     do { s' \<leftarrow> schedule s task priority; schedule_all s' rest }"

section \<open>Well-formed states and the notions of the specification\<close>

text \<open>
  What holds of a deque between completed operations: the buffer has \<open>capacity\<close> slots,
  the indices are non-negative \<^verbatim>\<open>int\<close> values, and \<open>top\<close> is at most one past \<open>bottom\<close>.
\<close>

definition deque_ok :: "'a lock_free_deque \<Rightarrow> bool" where
  "deque_ok d =
     (0 < capacity d \<and> capacity d \<le> INT_MAX \<and> length (buffer d) = nat (capacity d) \<and>
      0 \<le> top_ix d \<and> 0 \<le> bottom_ix d \<and> bottom_ix d \<le> INT_MAX \<and>
      top_ix d \<le> bottom_ix d + 1 \<and> bottom_ix d - top_ix d \<le> capacity d)"

definition queue_ok :: "'a work_queue_t \<Rightarrow> bool" where
  "queue_ok q = (length (task_queues q) = 4 \<and> list_all deque_ok (task_queues q))"

text \<open>
  The scans in the words of the specification: go through the priorities from
  \<open>CRITICAL\<close> (3) down to \<open>LOW\<close> (0) and return the first successful \<open>pop\<close>
  (respectively \<open>steal\<close>); return empty when all four fail.
\<close>

definition pop_succeeds :: "'a lock_free_deque \<Rightarrow> 'a fn \<Rightarrow> bool" where
  "pop_succeeds d task = (case pop d task of Some (popped, task', d') \<Rightarrow> popped | None \<Rightarrow> False)"

definition steal_succeeds :: "'a lock_free_deque \<Rightarrow> 'a fn \<Rightarrow> bool" where
  "steal_succeeds d task =
     (case steal d task of Some (stolen, task', d') \<Rightarrow> stolen | None \<Rightarrow> False)"

definition first_successful_pop ::
  "'a work_queue_t \<Rightarrow> 'a fn \<Rightarrow> (bool \<times> 'a fn \<times> 'a work_queue_t) option" where
  "first_successful_pop q task =
     (case find (\<lambda>p. pop_succeeds (task_queues q ! p) task) [3, 2, 1, 0] of
        None \<Rightarrow> Some (False, task, q)
      | Some p \<Rightarrow>
          do {
            (popped, task', d') \<leftarrow> pop (task_queues q ! p) task;
            Some (True, task', q\<lparr>task_queues := (task_queues q)[p := d']\<rparr>)
          })"

definition first_successful_steal ::
  "'a work_queue_t \<Rightarrow> 'a fn \<Rightarrow> (bool \<times> 'a fn \<times> 'a work_queue_t) option" where
  "first_successful_steal q task =
     (case find (\<lambda>p. steal_succeeds (task_queues q ! p) task) [3, 2, 1, 0] of
        None \<Rightarrow> Some (False, task, q)
      | Some p \<Rightarrow>
          do {
            (stolen, task', d') \<leftarrow> steal (task_queues q ! p) task;
            Some (True, task', q\<lparr>task_queues := (task_queues q)[p := d']\<rparr>)
          })"

text \<open>
  The bounds of the chunks \<open>0, \<dots>, num_chunks - 1\<close> of \<^verbatim>\<open>bulk_schedule\<close>, in the order
  of its loop, and the closures it builds for the non-empty ones.
\<close>

definition chunk_ranges :: "32 word \<Rightarrow> 32 word \<Rightarrow> (32 word \<times> 32 word) list" where
  "chunk_ranges num_chunks n =
     map (chunk_range (n div num_chunks) (n mod num_chunks)) (map of_nat [0..<unat num_chunks])"

definition chunk_closures ::
  "(32 word \<times> 32 word) list \<Rightarrow> 'f fn \<Rightarrow> ('t, 'f) callable list" where
  "chunk_closures ranges task =
     map (\<lambda>(start, end). Chunk start end task) (filter (\<lambda>(start, end). start < end) ranges)"

text \<open>
  The pushes a queue has received. A \<open>push\<close> advances \<open>bottom\<close> of its deque by one and
  \<open>schedule\<close> moves no other index, so over a run of calls to \<open>schedule\<close> the growth of
  this sum is the number of tasks deposited in the queue.
\<close>

definition pushed :: "'a work_queue_t \<Rightarrow> int" where
  "pushed q = sum_list (map bottom_ix (task_queues q))"

text \<open>
  A scheduler that accepts submissions: the stop flag is unset, \<open>num_queues\<close> is the
  number of queues (as the constructor sets it), there is a queue, and every queue is
  active.
\<close>

definition running_all_active :: "'a system_scheduler \<Rightarrow> bool" where
  "running_all_active s =
     (\<not> stop_flag s \<and> unat (num_queues s) = length (work_queues s) \<and>
      0 < length (work_queues s) \<and> list_all active (work_queues s))"

text \<open>How many of the counter values \<open>0, \<dots>, x - 1\<close> select queue \<open>i\<close> of \<open>N\<close>.\<close>

definition residue_count :: "nat \<Rightarrow> nat \<Rightarrow> nat \<Rightarrow> nat" where
  "residue_count N i x = (x + (N - Suc i)) div N"

section \<open>Evaluation on concrete states\<close>

text \<open>The equations of the loops are unfolded only where a proof asks for them.\<close>

declare resize_loop.simps [simp del]
declare pop_task_loop.simps [simp del]
declare steal_task_loop.simps [simp del]
declare chunk_body.simps [simp del]
declare bulk_loop.simps [simp del]

lemmas machine_defs =
  as_int_def INT_MAX_def INT_MIN_def int_rem_def vec_at_def vec_store_def vec_move_def

lemmas deque_defs =
  push_def pop_def steal_def steal_read_def steal_commit_def compare_exchange_top_def
  new_deque_def DEFAULT_CAPACITY_def empty_deque_def

lemma new_work_queue_list:
  "new_work_queue =
     \<lparr>task_queues = [new_deque, new_deque, new_deque, new_deque], active = True\<rparr>"
  by (simp add: new_work_queue_def numeral_eq_Suc)

lemma next_active_here:
  "vec_at qs (uint chosen) = Some q \<Longrightarrow> active q \<Longrightarrow> next_active qs num chosen = Some chosen"
  by (subst next_active.simps) simp

lemma worker_loop_exit:
  "worker_pass s thread_id (shuffle steal_indices) = Some (Exit, s') \<Longrightarrow>
   worker_loop shuffle thread_id steal_indices s executed = Some (s', executed)"
  by (subst worker_loop.simps) simp

lemmas scheduler_defs =
  schedule_def new_system_scheduler_def new_work_queue_list push_task_def next_active_here
  worker_pass_def pop_task_def steal_task_def empty_queue_def set_stopped_def
  pop_task_loop.simps steal_task_loop.simps

section \<open>The deque indices\<close>

text \<open>
  C5. At every quiescent point \<open>bottom - top\<close> is the number of live tasks and lies
  between 0 and the capacity. The code breaks this: \<open>pop\<close> of the last element advances
  \<open>top\<close> by its compare-and-swap and leaves \<open>bottom\<close> at the decremented value, so after
  one \<open>push\<close> and one \<open>pop\<close> on a new deque no task is live and \<open>bottom - top\<close> is \<open>-1\<close>.
\<close>

theorem pop_last_leaves_bottom_below_top:
  "map_option (\<lambda>(d, live). (top_ix d, bottom_ix d, bottom_ix d - top_ix d, live, capacity d))
     (deque_run (new_deque :: nat lock_free_deque) 0 [Push (Fn 7), Pop])
   = Some (1, 0, - 1, 0, 1024)"
  by (simp add: machine_defs deque_defs)

section \<open>Execution of submitted tasks\<close>

text \<open>
  C2. Every task submitted before the stop flag is set is executed exactly once before
  the destructor has joined the workers. The code loses a task: on a scheduler with one
  worker, task 1 is submitted and run by the worker, task 2 is submitted, and the
  scheduler is destroyed. The \<open>pop\<close> of task 1 left \<open>top = 1\<close> and \<open>bottom = 0\<close>, the
  \<open>push\<close> of task 2 makes them equal, so the queue counts as empty: the worker exits
  without running task 2, which is still in slot 0.
\<close>

theorem submitted_task_never_executed:
  "do {
     s1 \<leftarrow> schedule (new_system_scheduler 1 NORMAL 1 :: nat system_scheduler) (Fn 1) NORMAL;
     (p, s2) \<leftarrow> worker_pass s1 0 [];
     s3 \<leftarrow> schedule s2 (Fn 2) NORMAL;
     (s4, executed) \<leftarrow> destroy_single (\<lambda>order. order) s3;
     Some (p, executed,
           map (\<lambda>d. (top_ix d, bottom_ix d, buffer d ! 0)) (task_queues (work_queues s4 ! 0)))
   } = Some (Ran 1, [], [(0, 0, Nullfn), (1, 1, Fn 2), (0, 0, Nullfn), (0, 0, Nullfn)])"
  by (simp add: scheduler_defs machine_defs deque_defs destroy_single_def
      initial_steal_indices_def worker_loop_exit)

section \<open>Submission after shutdown\<close>

text \<open>
  C4. A call of \<open>schedule\<close> after the stop flag has been set returns normally and leaves
  the whole scheduler, and so every work queue, as it was: the task is not enqueued.
\<close>

theorem schedule_after_stop_is_dropped:
  "stop_flag s \<Longrightarrow> schedule s task priority = Some s"
  by (simp add: schedule_def)

theorem schedule_after_stop_is_dropped_witness:
  "stop_flag (set_stopped (new_system_scheduler 4 NORMAL 2 :: nat system_scheduler)) \<and>
   schedule (set_stopped (new_system_scheduler 4 NORMAL 2 :: nat system_scheduler)) (Fn 5) HIGH
     = Some (set_stopped (new_system_scheduler 4 NORMAL 2))"
  using schedule_after_stop_is_dropped
    [of "set_stopped (new_system_scheduler 4 NORMAL 2 :: nat system_scheduler)" "Fn 5" HIGH]
  by (simp add: set_stopped_def)

section \<open>Equality of schedulers\<close>

text \<open>
  C10. The comparison \<open>a == b\<close> of two schedulers is true whatever their priorities,
  thread counts and state.
\<close>

theorem scheduler_eq_always_true:
  "scheduler_eq a b = True"
  by (simp add: scheduler_eq_def)

section \<open>Failed steals\<close>

text \<open>A steal that nothing interrupts returns false only on a deque it saw empty, and
  then changes nothing.\<close>

lemma steal_uninterrupted_false:
  "steal d task = Some (False, task', d') \<Longrightarrow> d' = d \<and> task' = task \<and> bottom_ix d \<le> top_ix d"
  by (auto simp: steal_def steal_read_def steal_commit_def compare_exchange_top_def Let_def
      split: if_splits Option.bind_splits prod.splits option.splits)

text \<open>
  C7. A steal returns a task only when its compare-and-swap succeeds, and a steal that
  returns empty leaves \<open>top\<close>, \<open>bottom\<close> and every slot as they were. The code moves the
  task out of the slot before the compare-and-swap. On a deque holding one task, thief A
  runs \<open>steal\<close> up to its compare-and-swap, thief B runs a whole \<open>steal\<close>, then A's
  compare-and-swap fails: A returns false, yet slot 0, which held the task before A's
  call, is empty, and B's successful steal was handed an empty function.
\<close>

theorem failed_steal_has_emptied_the_slot:
  "do {
     d0 \<leftarrow> push (new_deque :: nat lock_free_deque) (Fn 7);
     (loaded, task_a, d1) \<leftarrow> steal_read d0 Nullfn;
     (stolen_b, task_b, d2) \<leftarrow> steal d1 Nullfn;
     (stolen_a, task_a', d3) \<leftarrow>
       (case loaded of Some t \<Rightarrow> steal_commit t task_a d2 | None \<Rightarrow> Some (False, task_a, d2));
     Some (buffer d0 ! 0, stolen_a, task_a', stolen_b, task_b,
           top_ix d3, bottom_ix d3, buffer d3 ! 0)
   } = Some (Fn 7, False, Fn 7, True, Nullfn, 1, 1, Nullfn)"
  by (simp add: machine_defs deque_defs)

section \<open>The priority of a submission\<close>

lemma schedule_running:
  assumes "\<not> stop_flag s" "schedule s task priority = Some s'"
  obtains chosen q q' where
    "num_queues s \<noteq> 0"
    "next_active (work_queues s) (num_queues s) (next_queue s mod num_queues s) = Some chosen"
    "vec_at (work_queues s) (uint chosen) = Some q"
    "push_task q (priority_int priority) task = Some q'"
    "s' = s\<lparr>next_queue := next_queue s + 1, work_queues := (work_queues s)[unat chosen := q']\<rparr>"
  using assms that
  by (auto simp: schedule_def Let_def split: if_splits Option.bind_splits)

lemma push_task_cases:
  assumes "push_task q prio task = Some q'"
  obtains d d' where "vec_at (task_queues q) prio = Some d" "push d task = Some d'"
    "q' = q\<lparr>task_queues := (task_queues q)[nat prio := d']\<rparr>"
  using assms that
  by (auto simp: push_task_def split: Option.bind_splits)

text \<open>
  C3. A call \<open>schedule(task)\<close> that gives no priority enqueues the task at the
  scheduler's configured default priority. It does not: the default argument is the
  constant \<open>NORMAL\<close>. On a scheduler constructed with \<open>HIGH\<close> the task goes to the
  deque of \<open>NORMAL\<close> (index 1), not to the deque of \<open>HIGH\<close> (index 2).
\<close>

theorem schedule_default_not_at_configured_priority:
  "schedule_default (new_system_scheduler 1 HIGH 1 :: nat system_scheduler) (Fn 7)
     \<noteq> schedule (new_system_scheduler 1 HIGH 1) (Fn 7)
         (get_priority (new_system_scheduler 1 HIGH 1 :: nat system_scheduler)) \<and>
   map_option (\<lambda>s'. (get_priority s',
       map (\<lambda>d. (bottom_ix d, buffer d ! 0)) (task_queues (work_queues s' ! 0))))
     (schedule_default (new_system_scheduler 1 HIGH 1 :: nat system_scheduler) (Fn 7))
   = Some (HIGH, [(0, Nullfn), (1, Fn 7), (0, Nullfn), (0, Nullfn)])"
  by (simp add: schedule_default_def get_priority_def scheduler_defs machine_defs deque_defs)

text \<open>
  C3, amended. On a running scheduler a call \<open>schedule(task)\<close> that gives no priority
  pushes the task onto the \<open>NORMAL\<close> deque of the chosen queue, whatever priority \<open>p\<close> the
  scheduler has been configured with; the configured priority stays \<open>p\<close>.
\<close>

theorem schedule_default_enqueues_at_normal:
  assumes "\<not> stop_flag s" and "schedule_default (set_priority s p) task = Some s'"
  shows "\<exists>(chosen :: 64 word) q d d'.
           vec_at (work_queues s) (uint chosen) = Some q \<and>
           vec_at (task_queues q) (priority_int NORMAL) = Some d \<and>
           push d task = Some d' \<and>
           work_queues s' =
             (work_queues s)[unat chosen := q\<lparr>task_queues := (task_queues q)[1 := d']\<rparr>] \<and>
           get_priority s' = p"
proof -
  let ?s = "set_priority s p"
  have running: "\<not> stop_flag ?s"
    using assms(1) by (simp add: set_priority_def)
  from assms(2) have sched: "schedule ?s task NORMAL = Some s'"
    by (simp add: schedule_default_def)
  from schedule_running [OF running sched] obtain chosen :: "64 word" and q q' where
    q: "vec_at (work_queues ?s) (uint chosen) = Some q"
    and pushed: "push_task q (priority_int NORMAL) task = Some q'"
    and s': "s' = ?s\<lparr>next_queue := next_queue ?s + 1,
                      work_queues := (work_queues ?s)[unat chosen := q']\<rparr>"
    by blast
  from push_task_cases [OF pushed] obtain d d' where
    d: "vec_at (task_queues q) (priority_int NORMAL) = Some d"
    and d': "push d task = Some d'"
    and q': "q' = q\<lparr>task_queues := (task_queues q)[nat (priority_int NORMAL) := d']\<rparr>"
    by blast
  from q have "vec_at (work_queues s) (uint chosen) = Some q"
    by (simp add: set_priority_def)
  moreover have "work_queues s' =
      (work_queues s)[unat chosen := q\<lparr>task_queues := (task_queues q)[1 := d']\<rparr>]"
    using s' q' by (simp add: set_priority_def)
  moreover have "get_priority s' = p"
    using s' by (simp add: get_priority_def set_priority_def)
  ultimately show ?thesis
    using d d' by blast
qed

theorem schedule_default_enqueues_at_normal_witness:
  "\<not> stop_flag (new_system_scheduler 1 LOW 1 :: nat system_scheduler) \<and>
   (\<exists>(chosen :: 64 word) q d d'.
      vec_at (work_queues (new_system_scheduler 1 LOW 1 :: nat system_scheduler)) (uint chosen)
        = Some q \<and>
      vec_at (task_queues q) (priority_int NORMAL) = Some d \<and>
      push d (Fn 7) = Some d' \<and>
      work_queues (the (schedule_default
          (set_priority (new_system_scheduler 1 LOW 1 :: nat system_scheduler) CRITICAL) (Fn 7)))
        = (work_queues (new_system_scheduler 1 LOW 1))
            [unat chosen := q\<lparr>task_queues := (task_queues q)[1 := d']\<rparr>] \<and>
      get_priority (the (schedule_default
          (set_priority (new_system_scheduler 1 LOW 1 :: nat system_scheduler) CRITICAL) (Fn 7)))
        = CRITICAL)"
proof -
  let ?s = "new_system_scheduler 1 LOW 1 :: nat system_scheduler"
  have running: "\<not> stop_flag ?s"
    by (simp add: new_system_scheduler_def)
  have "\<exists>s'. schedule_default (set_priority ?s CRITICAL) (Fn 7) = Some s'"
    by (simp add: schedule_default_def set_priority_def scheduler_defs machine_defs deque_defs)
  then have returned: "schedule_default (set_priority ?s CRITICAL) (Fn 7)
      = Some (the (schedule_default (set_priority ?s CRITICAL) (Fn 7)))"
    by (elim exE) simp
  show ?thesis
    by (rule conjI [OF running schedule_default_enqueues_at_normal [OF running returned]])
qed

section \<open>The active thread count\<close>

lemma schedule_active_thread_count:
  "schedule s task priority = Some s' \<Longrightarrow> active_thread_count s' = active_thread_count s"
  by (auto simp: schedule_def Let_def split: if_splits Option.bind_splits)

lemma bulk_loop_active_thread_count:
  "bulk_loop s num_chunks chunk_size remainder task priority chunk = Some s' \<Longrightarrow>
   active_thread_count s' = active_thread_count s"
proof (induction s num_chunks chunk_size remainder task priority chunk
    rule: bulk_loop.induct)
  case (1 s num_chunks chunk_size remainder task priority chunk)
  note unfold = bulk_loop.simps [of s num_chunks chunk_size remainder task priority chunk]
  show ?case
  proof (cases "chunk < num_chunks")
    case False
    with "1.prems" unfold show ?thesis by simp
  next
    case True
    obtain start end' where range: "(start, end') = chunk_range chunk_size remainder chunk"
      by (metis surj_pair)
    show ?thesis
    proof (cases "start < end'")
      case False
      with True "1.prems" unfold range [symmetric]
      have "bulk_loop s num_chunks chunk_size remainder task priority (chunk + 1) = Some s'"
        by simp
      with "1.IH"(2) [OF True range refl False] show ?thesis by simp
    next
      case nonempty: True
      with True "1.prems" unfold range [symmetric] obtain s1 where
        s1: "schedule s (Fn (Chunk start end' task)) priority = Some s1"
        and rest: "bulk_loop s1 num_chunks chunk_size remainder task priority (chunk + 1) = Some s'"
        by (auto simp: bind_eq_Some_conv)
      from "1.IH"(1) [OF True range refl nonempty s1 rest]
      have "active_thread_count s' = active_thread_count s1" .
      with schedule_active_thread_count [OF s1] show ?thesis by simp
    qed
  qed
qed

lemma worker_pass_keeps_count:
  "(case worker_pass s thread_id order of None \<Rightarrow> True
    | Some (p, s') \<Rightarrow> active_thread_count s' = active_thread_count s)"
  by (simp add: worker_pass_def Let_def
      split: Option.bind_split prod.split if_split fn.split option.split)

lemma worker_pass_active_thread_count:
  "worker_pass s thread_id order = Some (p, s') \<Longrightarrow>
   active_thread_count s' = active_thread_count s"
  using worker_pass_keeps_count [of s thread_id order] by simp

lemma perform_active_thread_count:
  assumes "perform s op = Some s'"
  shows "active_thread_count s' = active_thread_count s"
proof (cases op)
  case (Schedule task priority)
  with assms have "schedule s task priority = Some s'"
    by simp
  then show ?thesis
    by (rule schedule_active_thread_count)
next
  case (Bulk_schedule n task priority)
  with assms have "\<exists>num_chunks chunk_size remainder.
      bulk_loop s num_chunks chunk_size remainder task priority 0 = Some s'"
    by (auto simp: bulk_schedule_def Let_def)
  then show ?thesis
    by (auto dest: bulk_loop_active_thread_count)
next
  case (Set_priority priority)
  with assms show ?thesis
    by (auto simp: set_priority_def)
next
  case Set_stopped
  with assms show ?thesis
    by (auto simp: set_stopped_def)
next
  case (Set_error error)
  with assms show ?thesis
    by (auto simp: set_error_def split: exception_ptr.splits)
next
  case (Worker_pass thread_id order)
  with assms obtain p where "worker_pass s thread_id order = Some (p, s')"
    by (auto simp: bind_eq_Some_conv)
  then show ?thesis
    by (rule worker_pass_active_thread_count)
qed

lemma perform_all_active_thread_count:
  "perform_all s ops = Some s' \<Longrightarrow> active_thread_count s' = active_thread_count s"
proof (induction ops arbitrary: s)
  case Nil
  then show ?case by simp
next
  case (Cons op ops)
  then obtain s1 where first: "perform s op = Some s1" and rest: "perform_all s1 ops = Some s'"
    by (auto simp: bind_eq_Some_conv)
  from Cons.IH [OF rest] perform_active_thread_count [OF first] show ?case by simp
qed

text \<open>
  C9. \<open>get_active_thread_count\<close> is the worker count fixed by the constructor,
  \<open>thread_count\<close> if that is not zero and the hardware concurrency otherwise, and stays
  so after any sequence of \<open>schedule\<close>, \<open>bulk_schedule\<close>, \<open>set_priority\<close>, \<open>set_stopped\<close>,
  \<open>set_error\<close> and worker passes that returns.
\<close>

theorem active_thread_count_is_constant:
  "perform_all (new_system_scheduler hardware_concurrency priority thread_count) ops = Some s \<Longrightarrow>
   get_active_thread_count (new_system_scheduler hardware_concurrency priority thread_count)
     = (if thread_count > 0 then thread_count else hardware_concurrency) \<and>
   get_active_thread_count s
     = (if thread_count > 0 then thread_count else hardware_concurrency)"
  using perform_all_active_thread_count
    [of "new_system_scheduler hardware_concurrency priority thread_count" ops s]
  by (simp add: get_active_thread_count_def new_system_scheduler_def)

lemma replicate_two: "replicate 2 x = [x, x]"
  by (simp add: numeral_2_eq_2)

theorem active_thread_count_is_constant_witness:
  "perform_all (new_system_scheduler 2 NORMAL 0 :: (nat, nat) callable system_scheduler)
       [Schedule (Fn (Caller 1)) HIGH, Set_priority LOW, Worker_pass 0 [1],
        Set_error Std_exception, Set_stopped, Schedule (Fn (Caller 2)) LOW]
     = Some (the (perform_all (new_system_scheduler 2 NORMAL 0)
       [Schedule (Fn (Caller 1)) HIGH, Set_priority LOW, Worker_pass 0 [1],
        Set_error Std_exception, Set_stopped, Schedule (Fn (Caller 2)) LOW])) \<and>
   get_active_thread_count (new_system_scheduler 2 NORMAL 0 :: (nat, nat) callable system_scheduler)
     = 2 \<and>
   get_active_thread_count (the (perform_all
       (new_system_scheduler 2 NORMAL 0 :: (nat, nat) callable system_scheduler)
       [Schedule (Fn (Caller 1)) HIGH, Set_priority LOW, Worker_pass 0 [1],
        Set_error Std_exception, Set_stopped, Schedule (Fn (Caller 2)) LOW])) = 2"
proof -
  let ?s = "new_system_scheduler 2 NORMAL 0 :: (nat, nat) callable system_scheduler"
  let ?ops = "[Schedule (Fn (Caller 1)) HIGH, Set_priority LOW, Worker_pass 0 [1],
        Set_error Std_exception, Set_stopped, Schedule (Fn (Caller 2)) LOW] :: (nat, nat) operation list"
  have "\<exists>s'. perform_all ?s ?ops = Some s'"
    by (simp add: scheduler_defs machine_defs deque_defs set_priority_def set_error_def
        replicate_two)
  then have returned: "perform_all ?s ?ops = Some (the (perform_all ?s ?ops))"
    by (elim exE) (simp only: option.sel)
  have counts: "get_active_thread_count ?s = 2 \<and>
        get_active_thread_count (the (perform_all ?s ?ops)) = 2"
    using active_thread_count_is_constant [OF returned] by simp
  show ?thesis
    by (rule conjI [OF returned counts])
qed

section \<open>Pop and steal on a well-formed deque\<close>

lemma int_rem_nonneg: "0 \<le> a \<Longrightarrow> 0 < b \<Longrightarrow> int_rem a b = Some (a mod b)"
  by (cases "a = 0") (simp_all add: int_rem_def INT_MIN_def)

lemma pop_empty:
  assumes "deque_ok d" "empty_deque d"
  shows "pop d task = Some (False, task, d)"
  using assms
  by (simp add: pop_def deque_ok_def empty_deque_def as_int_def INT_MAX_def INT_MIN_def Let_def)

lemma pop_nonempty:
  assumes "deque_ok d" "\<not> empty_deque d"
  shows "pop d task =
    Some (True, buffer d ! nat ((bottom_ix d - 1) mod capacity d),
      d\<lparr>bottom_ix := bottom_ix d - 1,
        buffer := (buffer d)[nat ((bottom_ix d - 1) mod capacity d) := Nullfn],
        top_ix := (if top_ix d = bottom_ix d - 1 then top_ix d + 1 else top_ix d)\<rparr>)"
proof -
  let ?b = "bottom_ix d - 1"
  from assms have b: "as_int ?b = Some ?b" and tb: "top_ix d \<le> ?b" and b0: "0 \<le> ?b"
    and cap: "0 < capacity d" and len: "length (buffer d) = nat (capacity d)"
    and t1: "as_int (bottom_ix d) = Some (bottom_ix d)"
    by (auto simp: deque_ok_def empty_deque_def as_int_def INT_MAX_def INT_MIN_def Let_def)
  have slot: "int_rem ?b (capacity d) = Some (?b mod capacity d)"
    using b0 cap by (rule int_rem_nonneg)
  have range: "0 \<le> ?b mod capacity d" "?b mod capacity d < int (length (buffer d))"
    using cap len by simp_all
  then have moved: "vec_move (buffer d) (?b mod capacity d) =
      Some (buffer d ! nat (?b mod capacity d), (buffer d)[nat (?b mod capacity d) := Nullfn])"
    by (simp add: vec_move_def)
  show ?thesis
    using b tb slot moved t1
    by (simp add: pop_def Let_def compare_exchange_top_def)
qed

lemma steal_empty:
  assumes "empty_deque d"
  shows "steal d task = Some (False, task, d)"
  using assms by (simp add: steal_def steal_read_def empty_deque_def Let_def)

lemma steal_nonempty:
  assumes "deque_ok d" "\<not> empty_deque d"
  shows "steal d task =
    Some (True, buffer d ! nat (top_ix d mod capacity d),
      d\<lparr>buffer := (buffer d)[nat (top_ix d mod capacity d) := Nullfn],
        top_ix := top_ix d + 1\<rparr>)"
proof -
  let ?t = "top_ix d"
  from assms have lt: "?t < bottom_ix d" and t0: "0 \<le> ?t"
    and cap: "0 < capacity d" and len: "length (buffer d) = nat (capacity d)"
    and t1: "as_int (?t + 1) = Some (?t + 1)"
    by (auto simp: deque_ok_def empty_deque_def as_int_def INT_MAX_def INT_MIN_def Let_def)
  have slot: "int_rem ?t (capacity d) = Some (?t mod capacity d)"
    using t0 cap by (rule int_rem_nonneg)
  have range: "0 \<le> ?t mod capacity d" "?t mod capacity d < int (length (buffer d))"
    using cap len by simp_all
  then have moved: "vec_move (buffer d) (?t mod capacity d) =
      Some (buffer d ! nat (?t mod capacity d), (buffer d)[nat (?t mod capacity d) := Nullfn])"
    by (simp add: vec_move_def)
  show ?thesis
    using lt slot moved t1
    by (simp add: steal_def steal_read_def steal_commit_def Let_def compare_exchange_top_def)
qed

lemma deque_ok_new: "deque_ok new_deque"
  by (simp add: deque_ok_def new_deque_def DEFAULT_CAPACITY_def INT_MAX_def)

lemma deque_ok_pop:
  assumes "deque_ok d" "pop d task = Some (popped, task', d')"
  shows "deque_ok d'"
proof (cases "empty_deque d")
  case True
  with assms pop_empty [OF assms(1) True, of task] show ?thesis by simp
next
  case False
  from pop_nonempty [OF assms(1) False, of task] assms(2)
  have d': "d' = d\<lparr>bottom_ix := bottom_ix d - 1,
        buffer := (buffer d)[nat ((bottom_ix d - 1) mod capacity d) := Nullfn],
        top_ix := (if top_ix d = bottom_ix d - 1 then top_ix d + 1 else top_ix d)\<rparr>"
    by simp
  from assms(1) False show ?thesis
    unfolding d' by (auto simp: deque_ok_def empty_deque_def Let_def)
qed

lemma deque_ok_steal:
  assumes "deque_ok d" "steal d task = Some (stolen, task', d')"
  shows "deque_ok d'"
proof (cases "empty_deque d")
  case True
  with assms steal_empty [OF True, of task] show ?thesis by simp
next
  case False
  from steal_nonempty [OF assms(1) False, of task] assms(2)
  have d': "d' = d\<lparr>buffer := (buffer d)[nat (top_ix d mod capacity d) := Nullfn],
        top_ix := top_ix d + 1\<rparr>"
    by simp
  from assms(1) False show ?thesis
    unfolding d' by (auto simp: deque_ok_def empty_deque_def Let_def)
qed

text \<open>Well-formedness is kept by \<open>push\<close> too, and holds of what the constructors build.\<close>

lemma resize_loop_length:
  "resize_loop i b old_capacity new_capacity buf new_buffer = Some new_buffer' \<Longrightarrow>
   length new_buffer' = length new_buffer"
proof (induction i b old_capacity new_capacity buf new_buffer rule: resize_loop.induct)
  case (1 i b old_capacity new_capacity buf new_buffer)
  note unfold = resize_loop.simps [of i b old_capacity new_capacity buf new_buffer]
  show ?case
  proof (cases "i < b")
    case False
    with "1.prems" unfold show ?thesis by simp
  next
    case True
    with "1.prems" unfold obtain src x buf' dst stored i' where
      src: "int_rem i old_capacity = Some src"
      and moved: "vec_move buf src = Some (x, buf')"
      and dst: "int_rem i new_capacity = Some dst"
      and stored: "vec_store new_buffer dst x = Some stored"
      and i': "as_int (i + 1) = Some i'"
      and rest: "resize_loop i' b old_capacity new_capacity buf' stored = Some new_buffer'"
      by (auto simp: bind_eq_Some_conv)
    from "1.IH" [OF True src moved refl dst stored i' rest]
    have "length new_buffer' = length stored" .
    moreover from stored have "length stored = length new_buffer"
      by (auto simp: vec_store_def split: if_splits)
    ultimately show ?thesis by simp
  qed
qed

lemma resize_result:
  assumes "resize d = Some d'"
  shows "capacity d' = capacity d * 2" "capacity d' \<le> INT_MAX"
    "length (buffer d') = nat (capacity d')" "top_ix d' = top_ix d" "bottom_ix d' = bottom_ix d"
proof -
  from assms obtain new_capacity new_buffer' where
    cap: "as_int (capacity d * 2) = Some new_capacity" and nonneg: "0 \<le> new_capacity"
    and loop: "resize_loop (top_ix d) (bottom_ix d) (capacity d) new_capacity (buffer d)
      (replicate (nat new_capacity) Nullfn) = Some new_buffer'"
    and d': "d' = d\<lparr>buffer := new_buffer', capacity := new_capacity\<rparr>"
    by (auto simp: resize_def Let_def bind_eq_Some_conv split: if_splits)
  from cap have new: "new_capacity = capacity d * 2" "new_capacity \<le> INT_MAX"
    by (auto simp: as_int_def split: if_splits)
  from resize_loop_length [OF loop] have len: "length new_buffer' = nat new_capacity"
    by simp
  show "capacity d' = capacity d * 2" "capacity d' \<le> INT_MAX"
    "length (buffer d') = nat (capacity d')" "top_ix d' = top_ix d" "bottom_ix d' = bottom_ix d"
    using new len by (simp_all add: d')
qed

lemma deque_ok_push:
  assumes ok: "deque_ok d" and pushed: "push d task = Some d'"
  shows "deque_ok d'"
proof -
  from pushed obtain d1 slot buf b1 where
    d1: "(if capacity d \<le> bottom_ix d - top_ix d then resize d else Some d) = Some d1"
    and stored: "vec_store (buffer d1) slot task = Some buf"
    and b1: "as_int (bottom_ix d1 + 1) = Some b1"
    and d': "d' = d1\<lparr>buffer := buf, bottom_ix := b1\<rparr>"
    by (auto simp: push_def Let_def bind_eq_Some_conv as_int_def split: if_splits)
  have ok1: "deque_ok d1 \<and> bottom_ix d1 - top_ix d1 < capacity d1"
  proof (cases "capacity d \<le> bottom_ix d - top_ix d")
    case False
    with d1 ok show ?thesis by simp
  next
    case True
    with d1 have "resize d = Some d1" by simp
    from resize_result [OF this] ok True show ?thesis
      by (simp add: deque_ok_def)
  qed
  from stored have "length buf = length (buffer d1)"
    by (auto simp: vec_store_def split: if_splits)
  moreover from b1 have "b1 = bottom_ix d1 + 1" "b1 \<le> INT_MAX"
    by (auto simp: as_int_def split: if_splits)
  ultimately show ?thesis
    using ok1 by (simp add: d' deque_ok_def)
qed

lemma queue_ok_new: "queue_ok new_work_queue"
  by (simp add: queue_ok_def new_work_queue_list deque_ok_new)

lemma running_all_active_new:
  assumes "(if thread_count > 0 then thread_count else hardware_concurrency) \<noteq> 0"
  shows "running_all_active (new_system_scheduler hardware_concurrency priority thread_count)"
proof -
  let ?n = "if thread_count > 0 then thread_count else hardware_concurrency"
  have "uint (ucast ?n :: 64 word) = uint ?n"
    by (rule uint_up_ucast) (simp add: is_up)
  then have "unat (ucast ?n :: 64 word) = unat ?n"
    by (simp only: unat_eq_nat_uint)
  moreover from assms have "0 < unat ?n"
    by (simp add: unat_gt_0)
  ultimately show ?thesis
    by (simp add: running_all_active_def new_system_scheduler_def Let_def list_all_length
        new_work_queue_def)
qed

section \<open>The priority scans\<close>

lemma queue_ok_nth:
  assumes "queue_ok q" "p < 4"
  shows "deque_ok (task_queues q ! p)" "vec_at (task_queues q) (int p) = Some (task_queues q ! p)"
  using assms by (simp_all add: queue_ok_def list_all_length vec_at_def)

lemma pop_succeeds_iff:
  "deque_ok d \<Longrightarrow> pop_succeeds d task = (\<not> empty_deque d)"
  by (cases "empty_deque d") (simp_all add: pop_succeeds_def pop_empty pop_nonempty)

lemma steal_succeeds_iff:
  "deque_ok d \<Longrightarrow> steal_succeeds d task = (\<not> empty_deque d)"
  by (cases "empty_deque d") (simp_all add: steal_succeeds_def steal_empty steal_nonempty)

lemma pop_task_loop_skip:
  assumes "queue_ok q" "p < 4" "empty_deque (task_queues q ! p)"
  shows "pop_task_loop q (int p) task = pop_task_loop q (int p - 1) task"
  using queue_ok_nth [OF assms(1,2)] assms(3)
  by (subst pop_task_loop.simps) (simp add: pop_empty)

lemma pop_task_loop_take:
  assumes "queue_ok q" "p < 4" "\<not> empty_deque (task_queues q ! p)"
  shows "pop_task_loop q (int p) task =
     do {
       (popped, task', d') \<leftarrow> pop (task_queues q ! p) task;
       Some (True, task', q\<lparr>task_queues := (task_queues q)[p := d']\<rparr>)
     }"
  using queue_ok_nth [OF assms(1,2)] assms(3)
  by (subst pop_task_loop.simps) (simp add: pop_nonempty)

lemma pop_task_loop_end: "pop_task_loop q (- 1) task = Some (False, task, q)"
  by (subst pop_task_loop.simps) simp

lemma pop_task_refines:
  assumes "queue_ok q"
  shows "pop_task q task = first_successful_pop q task"
proof -
  note ok = queue_ok_nth(1) [OF assms]
  have s: "pop_succeeds (task_queues q ! p) task = (\<not> empty_deque (task_queues q ! p))"
    if "p < 4" for p
    using ok [OF that] by (rule pop_succeeds_iff)
  have skip: "pop_task_loop q (int p) task = pop_task_loop q (int p - 1) task"
    if "p < 4" "empty_deque (task_queues q ! p)" for p
    using assms that by (rule pop_task_loop_skip)
  have take: "pop_task_loop q (int p) task =
      do { (popped, task', d') \<leftarrow> pop (task_queues q ! p) task;
           Some (True, task', q\<lparr>task_queues := (task_queues q)[p := d']\<rparr>) }"
    if "p < 4" "\<not> empty_deque (task_queues q ! p)" for p
    using assms that by (rule pop_task_loop_take)
  show ?thesis
  proof (cases "empty_deque (task_queues q ! 3)")
    case False
    then show ?thesis
      using take [of 3] s [of 3] by (simp add: pop_task_def first_successful_pop_def)
  next
    case e3: True
    show ?thesis
    proof (cases "empty_deque (task_queues q ! 2)")
      case False
      then show ?thesis
        using e3 skip [of 3] take [of 2] s [of 3] s [of 2]
        by (simp add: pop_task_def first_successful_pop_def)
    next
      case e2: True
      show ?thesis
      proof (cases "empty_deque (task_queues q ! 1)")
        case False
        then show ?thesis
          using e3 e2 skip [of 3] skip [of 2] take [of 1] s [of 3] s [of 2] s [of 1]
          by (simp add: pop_task_def first_successful_pop_def)
      next
        case e1: True
        show ?thesis
        proof (cases "empty_deque (task_queues q ! 0)")
          case False
          then show ?thesis
            using e3 e2 e1 skip [of 3] skip [of 2] skip [of 1] take [of 0]
              s [of 3] s [of 2] s [of 1] s [of 0]
            by (simp add: pop_task_def first_successful_pop_def)
        next
          case e0: True
          then show ?thesis
            using e3 e2 e1 skip [of 3] skip [of 2] skip [of 1] skip [of 0]
              s [of 3] s [of 2] s [of 1] s [of 0]
            by (simp add: pop_task_def first_successful_pop_def pop_task_loop_end)
        qed
      qed
    qed
  qed
qed

lemma steal_task_loop_skip:
  assumes "queue_ok q" "p < 4" "empty_deque (task_queues q ! p)"
  shows "steal_task_loop q (int p) task = steal_task_loop q (int p - 1) task"
  using queue_ok_nth [OF assms(1,2)] assms(3)
  by (subst steal_task_loop.simps) (simp add: steal_empty)

lemma steal_task_loop_take:
  assumes "queue_ok q" "p < 4" "\<not> empty_deque (task_queues q ! p)"
  shows "steal_task_loop q (int p) task =
     do {
       (stolen, task', d') \<leftarrow> steal (task_queues q ! p) task;
       Some (True, task', q\<lparr>task_queues := (task_queues q)[p := d']\<rparr>)
     }"
  using queue_ok_nth [OF assms(1,2)] assms(3)
  by (subst steal_task_loop.simps) (simp add: steal_nonempty)

lemma steal_task_loop_end: "steal_task_loop q (- 1) task = Some (False, task, q)"
  by (subst steal_task_loop.simps) simp

lemma steal_task_refines:
  assumes "queue_ok q"
  shows "steal_task q task = first_successful_steal q task"
proof -
  note ok = queue_ok_nth(1) [OF assms]
  have s: "steal_succeeds (task_queues q ! p) task = (\<not> empty_deque (task_queues q ! p))"
    if "p < 4" for p
    using ok [OF that] by (rule steal_succeeds_iff)
  have skip: "steal_task_loop q (int p) task = steal_task_loop q (int p - 1) task"
    if "p < 4" "empty_deque (task_queues q ! p)" for p
    using assms that by (rule steal_task_loop_skip)
  have take: "steal_task_loop q (int p) task =
      do { (stolen, task', d') \<leftarrow> steal (task_queues q ! p) task;
           Some (True, task', q\<lparr>task_queues := (task_queues q)[p := d']\<rparr>) }"
    if "p < 4" "\<not> empty_deque (task_queues q ! p)" for p
    using assms that by (rule steal_task_loop_take)
  show ?thesis
  proof (cases "empty_deque (task_queues q ! 3)")
    case False
    then show ?thesis
      using take [of 3] s [of 3] by (simp add: steal_task_def first_successful_steal_def)
  next
    case e3: True
    show ?thesis
    proof (cases "empty_deque (task_queues q ! 2)")
      case False
      then show ?thesis
        using e3 skip [of 3] take [of 2] s [of 3] s [of 2]
        by (simp add: steal_task_def first_successful_steal_def)
    next
      case e2: True
      show ?thesis
      proof (cases "empty_deque (task_queues q ! 1)")
        case False
        then show ?thesis
          using e3 e2 skip [of 3] skip [of 2] take [of 1] s [of 3] s [of 2] s [of 1]
          by (simp add: steal_task_def first_successful_steal_def)
      next
        case e1: True
        show ?thesis
        proof (cases "empty_deque (task_queues q ! 0)")
          case False
          then show ?thesis
            using e3 e2 e1 skip [of 3] skip [of 2] skip [of 1] take [of 0]
              s [of 3] s [of 2] s [of 1] s [of 0]
            by (simp add: steal_task_def first_successful_steal_def)
        next
          case e0: True
          then show ?thesis
            using e3 e2 e1 skip [of 3] skip [of 2] skip [of 1] skip [of 0]
              s [of 3] s [of 2] s [of 1] s [of 0]
            by (simp add: steal_task_def first_successful_steal_def steal_task_loop_end)
        qed
      qed
    qed
  qed
qed

text \<open>
  The scans on a well-formed queue. \<open>pop_task\<close> and \<open>steal_task\<close> go through the four
  deques from \<open>CRITICAL\<close> (3) down to \<open>LOW\<close> (0) and return the task of the first deque
  whose \<open>pop\<close> (respectively \<open>steal\<close>) succeeds, and empty only if all four fail. When
  the \<open>CRITICAL\<close> deque is not empty by the code's own test (\<open>top < bottom\<close>), the task
  handed out is the one of that deque, and only that deque changes. A well-formed deque
  can have \<open>top = bottom + 1\<close>; a task pushed onto it is then in a slot and the deque
  still tests empty, so this says nothing about such a task.
\<close>

lemma scans_take_highest_priority_first:
  assumes "queue_ok q"
  shows "pop_task q task = first_successful_pop q task \<and>
    steal_task q task = first_successful_steal q task \<and>
    (\<not> empty_deque (task_queues q ! 3) \<and> \<not> empty_deque (task_queues q ! 0) \<longrightarrow>
       (\<exists>d'. pop_task q task =
          Some (True,
            buffer (task_queues q ! 3) !
              nat ((bottom_ix (task_queues q ! 3) - 1) mod capacity (task_queues q ! 3)),
            q\<lparr>task_queues := (task_queues q)[3 := d']\<rparr>)) \<and>
       (\<exists>d'. steal_task q task =
          Some (True,
            buffer (task_queues q ! 3) !
              nat (top_ix (task_queues q ! 3) mod capacity (task_queues q ! 3)),
            q\<lparr>task_queues := (task_queues q)[3 := d']\<rparr>)))"
proof (intro conjI impI)
  show "pop_task q task = first_successful_pop q task"
    using assms by (rule pop_task_refines)
  show "steal_task q task = first_successful_steal q task"
    using assms by (rule steal_task_refines)
next
  assume avail: "\<not> empty_deque (task_queues q ! 3) \<and> \<not> empty_deque (task_queues q ! 0)"
  have ok3: "deque_ok (task_queues q ! 3)"
    using assms by (simp add: queue_ok_nth)
  from avail have ne: "\<not> empty_deque (task_queues q ! 3)"
    by simp
  show "\<exists>d'. pop_task q task =
          Some (True,
            buffer (task_queues q ! 3) !
              nat ((bottom_ix (task_queues q ! 3) - 1) mod capacity (task_queues q ! 3)),
            q\<lparr>task_queues := (task_queues q)[3 := d']\<rparr>)"
  proof -
    from pop_nonempty [OF ok3 ne, of task] obtain d' where
      "pop (task_queues q ! 3) task =
         Some (True,
           buffer (task_queues q ! 3) !
             nat ((bottom_ix (task_queues q ! 3) - 1) mod capacity (task_queues q ! 3)), d')"
      by blast
    with pop_task_loop_take [OF assms _ ne, of task]
    have "pop_task q task =
          Some (True,
            buffer (task_queues q ! 3) !
              nat ((bottom_ix (task_queues q ! 3) - 1) mod capacity (task_queues q ! 3)),
            q\<lparr>task_queues := (task_queues q)[3 := d']\<rparr>)"
      by (simp add: pop_task_def)
    then show ?thesis ..
  qed
  show "\<exists>d'. steal_task q task =
          Some (True,
            buffer (task_queues q ! 3) !
              nat (top_ix (task_queues q ! 3) mod capacity (task_queues q ! 3)),
            q\<lparr>task_queues := (task_queues q)[3 := d']\<rparr>)"
  proof -
    from steal_nonempty [OF ok3 ne, of task] obtain d' where
      "steal (task_queues q ! 3) task =
         Some (True,
           buffer (task_queues q ! 3) !
             nat (top_ix (task_queues q ! 3) mod capacity (task_queues q ! 3)), d')"
      by blast
    with steal_task_loop_take [OF assms _ ne, of task]
    have "steal_task q task =
          Some (True,
            buffer (task_queues q ! 3) !
              nat (top_ix (task_queues q ! 3) mod capacity (task_queues q ! 3)),
            q\<lparr>task_queues := (task_queues q)[3 := d']\<rparr>)"
      by (simp add: steal_task_def)
    then show ?thesis ..
  qed
qed

lemma scans_take_highest_priority_first_example:
  "queue_ok \<lparr>task_queues =
       [new_deque\<lparr>buffer := (buffer new_deque)[0 := Fn (1 :: nat)], bottom_ix := 1\<rparr>,
        new_deque, new_deque,
        new_deque\<lparr>buffer := (buffer new_deque)[0 := Fn 2], bottom_ix := 1\<rparr>],
     active = True\<rparr> \<and>
   map_option (\<lambda>(popped, task', q'). (popped, task', map bottom_ix (task_queues q')))
     (pop_task \<lparr>task_queues =
       [new_deque\<lparr>buffer := (buffer new_deque)[0 := Fn (1 :: nat)], bottom_ix := 1\<rparr>,
        new_deque, new_deque,
        new_deque\<lparr>buffer := (buffer new_deque)[0 := Fn 2], bottom_ix := 1\<rparr>],
       active = True\<rparr> Nullfn)
     = Some (True, Fn 2, [1, 0, 0, 0]) \<and>
   map_option (\<lambda>(stolen, task', q'). (stolen, task', map top_ix (task_queues q')))
     (steal_task \<lparr>task_queues =
       [new_deque\<lparr>buffer := (buffer new_deque)[0 := Fn (1 :: nat)], bottom_ix := 1\<rparr>,
        new_deque, new_deque,
        new_deque\<lparr>buffer := (buffer new_deque)[0 := Fn 2], bottom_ix := 1\<rparr>],
       active = True\<rparr> Nullfn)
     = Some (True, Fn 2, [0, 0, 0, 1])"
proof -
  let ?q = "\<lparr>task_queues =
       [new_deque\<lparr>buffer := (buffer new_deque)[0 := Fn (1 :: nat)], bottom_ix := 1\<rparr>,
        new_deque, new_deque,
        new_deque\<lparr>buffer := (buffer new_deque)[0 := Fn 2], bottom_ix := 1\<rparr>],
     active = True\<rparr>"
  have ok: "queue_ok ?q"
    by (simp add: queue_ok_def deque_ok_def new_deque_def DEFAULT_CAPACITY_def INT_MAX_def)
  have "pop_task ?q Nullfn = first_successful_pop ?q Nullfn"
       "steal_task ?q Nullfn = first_successful_steal ?q Nullfn"
    using scans_take_highest_priority_first [OF ok, of Nullfn] by simp_all
  moreover have "map_option (\<lambda>(popped, task', q'). (popped, task', map bottom_ix (task_queues q')))
      (first_successful_pop ?q Nullfn) = Some (True, Fn 2, [1, 0, 0, 0])"
    by (simp add: first_successful_pop_def pop_succeeds_def machine_defs deque_defs)
  moreover have "map_option (\<lambda>(stolen, task', q'). (stolen, task', map top_ix (task_queues q')))
      (first_successful_steal ?q Nullfn) = Some (True, Fn 2, [0, 0, 0, 1])"
    by (simp add: first_successful_steal_def steal_succeeds_def machine_defs deque_defs)
  ultimately show ?thesis
    using ok by simp
qed

text \<open>
  C6. \<open>pop_task\<close> and \<open>steal_task\<close> scan the four deques from \<open>CRITICAL\<close> down to \<open>LOW\<close>
  and return the task of the first deque whose \<open>pop\<close> (respectively \<open>steal\<close>) succeeds;
  hence when a \<open>CRITICAL\<close> and a \<open>LOW\<close> task are both available in a queue, the
  \<open>CRITICAL\<close> one is selected first. The scan is as claimed, the consequence fails in
  the code: on a new queue, task 1 is pushed at \<open>CRITICAL\<close> and popped, which leaves
  \<open>top = 1\<close> and \<open>bottom = 0\<close> in that deque; task 2 is pushed at \<open>CRITICAL\<close> and task 3 at
  \<open>LOW\<close>. The queue is well-formed, task 2 is in slot 0 of the \<open>CRITICAL\<close> deque and has
  never been handed out, but that deque has \<open>top = bottom = 1\<close>, so its \<open>pop\<close> and \<open>steal\<close>
  fail and both \<open>pop_task\<close> and \<open>steal_task\<close> return task 3, the \<open>LOW\<close> one.
\<close>

theorem critical_task_passed_over_for_low:
  "do {
     q1 \<leftarrow> push_task (new_work_queue :: nat work_queue_t) (priority_int CRITICAL) (Fn 1);
     (popped1, task1, q2) \<leftarrow> pop_task q1 Nullfn;
     q3 \<leftarrow> push_task q2 (priority_int CRITICAL) (Fn 2);
     q4 \<leftarrow> push_task q3 (priority_int LOW) (Fn 3);
     (popped, task, q5) \<leftarrow> pop_task q4 Nullfn;
     (stolen, task', q6) \<leftarrow> steal_task q4 Nullfn;
     Some (task1, queue_ok q4,
           buffer (task_queues q4 ! 3) ! 0, top_ix (task_queues q4 ! 3),
           bottom_ix (task_queues q4 ! 3), buffer (task_queues q4 ! 0) ! 0,
           popped, task, stolen, task')
   } = Some (Fn 1, True, Fn 2, 1, 1, Fn 3, True, Fn 3, True, Fn 3)"
  by (simp add: scheduler_defs machine_defs deque_defs queue_ok_def deque_ok_def)

section \<open>Bulk submission partitions the index range\<close>

lemma word_div_self32:
  assumes "n \<noteq> 0"
  shows "(n :: 32 word) div n = 1"
proof -
  from assms have "unat n \<noteq> 0"
    by (simp add: unat_eq_zero)
  then have "unat (n div n) = unat (1 :: 32 word)"
    by (simp add: unat_div)
  then show ?thesis
    by (simp only: word_unat_eq_iff)
qed

lemma word_div_less32:
  assumes "n < nc"
  shows "(n :: 32 word) div nc = 0"
proof -
  from assms have "unat n < unat nc"
    by (simp only: word_less_nat_alt)
  then have "unat (n div nc) = 0"
    by (simp only: unat_div div_less)
  then show ?thesis
    by (simp only: unat_eq_zero)
qed

lemma word_mod_less32:
  assumes "n < nc"
  shows "(n :: 32 word) mod nc = n"
proof -
  from assms have "unat n < unat nc"
    by (simp only: word_less_nat_alt)
  then have "unat (n mod nc) = unat n"
    by (simp only: unat_mod mod_less)
  then show ?thesis
    by (simp only: word_unat_eq_iff)
qed

lemma word_succ_no_wrap: "(a :: 32 word) < b \<Longrightarrow> unat (a + 1) = Suc (unat a)"
proof -
  assume "a < b"
  then have "unat a < unat b"
    by (simp add: word_less_nat_alt)
  moreover have "unat b < 2 ^ 32"
    using unsigned_less [of b] by simp
  ultimately show ?thesis
    by (simp add: unat_word_ariths)
qed

lemma chunk_range_below:
  assumes "0 < n" "chunk < n"
  shows "chunk_range (n div max a n) (n mod max a n) chunk = (chunk, chunk + 1)"
proof (cases "n < max a n")
  case True
  with assms show ?thesis
    by (auto simp: chunk_range_def word_div_less32 word_mod_less32 min_def)
next
  case False
  then have "max a n = n"
    by (simp add: max_def split: if_splits)
  with assms show ?thesis
    by (simp add: chunk_range_def word_div_self32 min_def)
qed

lemma chunk_range_above:
  assumes "0 < n" "n \<le> chunk" "chunk < max a n"
  shows "chunk_range (n div max a n) (n mod max a n) chunk = (n, n)"
proof -
  from assms have "n < max a n"
    by simp
  with assms show ?thesis
    by (auto simp: chunk_range_def word_div_less32 word_mod_less32 min_def)
qed

lemma chunk_body_calls_aux:
  "task = Fn f \<Longrightarrow> chunk_body i end task = Some (map of_nat [unat i..<unat end])"
proof (induction i "end" task rule: chunk_body.induct)
  case (1 i "end" task)
  show ?case
  proof (cases "i < end")
    case False
    then show ?thesis
      by (subst chunk_body.simps) (simp add: word_less_nat_alt)
  next
    case True
    then have lt: "unat i < unat end"
      by (simp add: word_less_nat_alt)
    from "1.IH" [OF True "1.prems" "1.prems"]
    have "chunk_body (i + 1) end task = Some (map of_nat [unat (i + 1)..<unat end])" .
    with True lt "1.prems" show ?thesis
      by (subst chunk_body.simps) (simp add: word_succ_no_wrap [OF True] upt_conv_Cons)
  qed
qed

lemma chunk_body_calls:
  "chunk_body i end (Fn f) = Some (map of_nat [unat i..<unat end])"
  by (rule chunk_body_calls_aux [OF refl])


lemma bulk_loop_submits:
  "bulk_loop s num_chunks chunk_size remainder task priority chunk =
     schedule_all s
       (map (\<lambda>(start, end). (Fn (Chunk start end task), priority))
         (filter (\<lambda>(start, end). start < end)
           (map (chunk_range chunk_size remainder)
             (map of_nat [unat chunk..<unat num_chunks]))))"
proof (induction s num_chunks chunk_size remainder task priority chunk
    rule: bulk_loop.induct)
  case (1 s num_chunks chunk_size remainder task priority chunk)
  note unfold = bulk_loop.simps [of s num_chunks chunk_size remainder task priority chunk]
  let ?closures = "\<lambda>i. map (\<lambda>(start, end). (Fn (Chunk start end task), priority))
         (filter (\<lambda>(start, end). start < end)
           (map (chunk_range chunk_size remainder) (map of_nat [i..<unat num_chunks])))"
  show ?case
  proof (cases "chunk < num_chunks")
    case False
    then have "unat num_chunks \<le> unat chunk"
      by (simp add: word_less_nat_alt)
    with False unfold show ?thesis by simp
  next
    case True
    then have lt: "unat chunk < unat num_chunks"
      by (simp add: word_less_nat_alt)
    have upt: "[unat chunk..<unat num_chunks] = unat chunk # [unat (chunk + 1)..<unat num_chunks]"
      using lt by (simp add: upt_conv_Cons word_succ_no_wrap [OF True])
    obtain start end' where range: "(start, end') = chunk_range chunk_size remainder chunk"
      by (metis surj_pair)
    show ?thesis
    proof (cases "start < end'")
      case False
      from "1.IH"(2) [OF True range refl False]
      have "bulk_loop s num_chunks chunk_size remainder task priority (chunk + 1)
          = schedule_all s (?closures (unat (chunk + 1)))" .
      with True False unfold range [symmetric] show ?thesis
        by (simp add: upt)
    next
      case nonempty: True
      have "schedule s (Fn (Chunk start end' task)) priority \<bind>
              (\<lambda>s'. bulk_loop s' num_chunks chunk_size remainder task priority (chunk + 1))
          = schedule s (Fn (Chunk start end' task)) priority \<bind>
              (\<lambda>s'. schedule_all s' (?closures (unat (chunk + 1))))"
        by (rule Option.bind_cong [OF refl]) (rule "1.IH"(1) [OF True range refl nonempty])
      with True nonempty unfold range [symmetric] show ?thesis
        by (simp add: upt)
    qed
  qed
qed

lemma filter_below:
  assumes "N \<le> C" "\<And>k. k < C \<Longrightarrow> P (g k) = (k < N)"
  shows "filter P (map g [0..<C]) = map g [0..<N]"
proof -
  from assms(1) have split: "[0..<C] = [0..<N] @ [N..<C]"
    by (metis le_add_diff_inverse upt_add_eq_append zero_le)
  have "filter P (map g [0..<N]) = map g [0..<N]"
    using assms by (auto simp: filter_id_conv)
  moreover have "filter P (map g [N..<C]) = []"
    using assms by (auto simp: filter_empty_conv)
  ultimately show ?thesis
    by (simp add: split)
qed

lemma unat_of_nat_below:
  "k \<le> unat (w :: 32 word) \<Longrightarrow> unat (of_nat k :: 32 word) = k"
  by (rule le_unat_uoi)

lemma chunk_ranges_nth:
  assumes "0 < n" "k < unat (max a n)"
  shows "chunk_ranges (max a n) n ! k =
     (if k < unat n then (of_nat k, of_nat (Suc k)) else (n, n))"
proof -
  from assms(2) have "k \<le> unat (max a n)"
    by simp
  then have k: "unat (of_nat k :: 32 word) = k"
    by (rule unat_of_nat_below)
  have nth: "chunk_ranges (max a n) n ! k =
      chunk_range (n div max a n) (n mod max a n) (of_nat k)"
    using assms(2) by (simp add: chunk_ranges_def)
  show ?thesis
  proof (cases "k < unat n")
    case True
    then have "(of_nat k :: 32 word) < n"
      by (simp add: word_less_nat_alt k)
    from chunk_range_below [OF assms(1) this] True show ?thesis
      by (simp add: nth add.commute)
  next
    case False
    then have ge: "n \<le> (of_nat k :: 32 word)"
      by (simp add: word_le_nat_alt k)
    have "(of_nat k :: 32 word) < max a n"
      using assms(2) by (simp add: word_less_nat_alt k)
    from chunk_range_above [OF assms(1) ge this] False show ?thesis
      by (simp add: nth)
  qed
qed

lemma nonempty_chunk_ranges:
  assumes "0 < n"
  shows "filter (\<lambda>(start, end). start < end) (chunk_ranges (max a n) n) =
     map (\<lambda>k. (of_nat k, of_nat (Suc k))) [0..<unat n]"
proof -
  let ?g = "\<lambda>k. chunk_range (n div max a n) (n mod max a n) (of_nat k)"
  let ?P = "\<lambda>(start :: 32 word, end :: 32 word). start < end"
  have le: "unat n \<le> unat (max a n)"
    by (simp add: word_le_nat_alt [symmetric])
  have g: "?g k = (if k < unat n then (of_nat k, of_nat (Suc k)) else (n, n))"
    if "k < unat (max a n)" for k
    using chunk_ranges_nth [OF assms that] that by (simp add: chunk_ranges_def)
  have P: "?P (?g k) = (k < unat n)" if "k < unat (max a n)" for k
  proof (cases "k < unat n")
    case True
    then have "k \<le> unat n" "Suc k \<le> unat n"
      by simp_all
    then have "unat (of_nat k :: 32 word) = k" "unat (of_nat (Suc k) :: 32 word) = Suc k"
      by (simp_all only: unat_of_nat_below)
    then have "(of_nat k :: 32 word) < of_nat (Suc k)"
      by (simp only: word_less_nat_alt lessI)
    with True g [OF that] show ?thesis by simp
  next
    case False
    with g [OF that] show ?thesis by simp
  qed
  have "filter ?P (map ?g [0..<unat (max a n)]) = map ?g [0..<unat n]"
    using le P by (rule filter_below)
  moreover have "map ?g [0..<unat n] = map (\<lambda>k. (of_nat k, of_nat (Suc k))) [0..<unat n]"
    using g le by (intro map_cong refl) auto
  ultimately show ?thesis
    by (simp add: chunk_ranges_def comp_def)
qed

lemma chunk_closures_explicit:
  assumes "0 < n"
  shows "chunk_closures (chunk_ranges (max a n) n) task =
     map (\<lambda>k. Chunk (of_nat k) (of_nat (Suc k)) task) [0..<unat n]"
  unfolding chunk_closures_def nonempty_chunk_ranges [OF assms]
  by (simp add: comp_def)

lemma bulk_schedule_submits:
  assumes "0 < n"
  shows "bulk_schedule s n task p =
     schedule_all s (map (\<lambda>c. (Fn c, p))
       (chunk_closures (chunk_ranges (max (active_thread_count s * 8) n) n) task))"
proof -
  let ?nc = "max (active_thread_count s * 8) n"
  from assms have "?nc \<noteq> 0"
    by (metis max.cobounded2 not_less word_le_0_iff word_neq_0_conv)
  then have "bulk_schedule s n task p =
      bulk_loop s ?nc (n div ?nc) (n mod ?nc) task p 0"
    by (simp add: bulk_schedule_def Let_def)
  also have "\<dots> = schedule_all s
       (map (\<lambda>(start, end). (Fn (Chunk start end task), p))
         (filter (\<lambda>(start, end). start < end)
           (map (chunk_range (n div ?nc) (n mod ?nc)) (map of_nat [unat (0 :: 32 word)..<unat ?nc]))))"
    by (rule bulk_loop_submits)
  also have "\<dots> = schedule_all s (map (\<lambda>c. (Fn c, p)) (chunk_closures (chunk_ranges ?nc n) task))"
    by (simp add: chunk_closures_def chunk_ranges_def comp_def case_prod_unfold)
  finally show ?thesis .
qed

lemma chunk_sizes:
  assumes "0 < n" "k < unat (max a n)"
  shows "unat (snd (chunk_ranges (max a n) n ! k)) =
     unat (fst (chunk_ranges (max a n) n ! k)) + unat (n div max a n) +
       (if k < unat (n mod max a n) then 1 else 0)"
proof -
  let ?N = "unat n" and ?C = "unat (max a n)"
  have le: "?N \<le> ?C"
    by (simp add: word_le_nat_alt [symmetric])
  from assms(1) have pos: "0 < ?N"
    by (simp add: word_less_nat_alt)
  have dm: "unat (n div max a n) = ?N div ?C" "unat (n mod max a n) = ?N mod ?C"
    by (simp_all add: unat_div unat_mod)
  show ?thesis
  proof (cases "k < ?N")
    case True
    then have "k \<le> ?N" "Suc k \<le> ?N"
      by simp_all
    then have u: "unat (of_nat k :: 32 word) = k" "unat (of_nat (Suc k) :: 32 word) = Suc k"
      by (simp_all only: unat_of_nat_below)
    have "?N div ?C + (if k < ?N mod ?C then 1 else 0) = (1 :: nat)"
    proof (cases "?N = ?C")
      case True
      with pos show ?thesis by simp
    next
      case False
      with le have "?N < ?C" by simp
      with \<open>k < ?N\<close> show ?thesis by simp
    qed
    with True u show ?thesis
      unfolding chunk_ranges_nth [OF assms] dm by (simp only: if_True fst_conv snd_conv)
  next
    case False
    with assms(2) have "?N < ?C" by simp
    with False show ?thesis
      unfolding chunk_ranges_nth [OF assms] dm by simp
  qed
qed

lemma chunk_ranges_contiguous:
  assumes "0 < n"
  shows "fst (hd (chunk_ranges (max a n) n)) = 0"
    and "snd (last (chunk_ranges (max a n) n)) = n"
    and "Suc k < length (chunk_ranges (max a n) n) \<Longrightarrow>
      snd (chunk_ranges (max a n) n ! k) = fst (chunk_ranges (max a n) n ! Suc k)"
proof -
  let ?N = "unat n" and ?C = "unat (max a n)" and ?rs = "chunk_ranges (max a n) n"
  have le: "?N \<le> ?C"
    by (simp add: word_le_nat_alt [symmetric])
  from assms have pos: "0 < ?N"
    by (simp add: word_less_nat_alt)
  have len: "length ?rs = ?C"
    by (simp add: chunk_ranges_def)
  with pos le have ne: "?rs \<noteq> []"
    by auto
  have n: "(of_nat ?N :: 32 word) = n"
    by simp
  from pos le show "fst (hd ?rs) = 0"
    by (simp add: hd_conv_nth [OF ne] chunk_ranges_nth [OF assms])
  show "snd (last ?rs) = n"
  proof (cases "?C - 1 < ?N")
    case True
    with le pos have "Suc (?C - 1) = ?N"
      by simp
    then have "(of_nat (Suc (?C - 1)) :: 32 word) = n"
      by (simp only: n)
    with True pos le show ?thesis
      by (simp only: last_conv_nth [OF ne] len chunk_ranges_nth [OF assms] if_True snd_conv)
  next
    case False
    with pos le show ?thesis
      by (simp add: last_conv_nth [OF ne] len chunk_ranges_nth [OF assms])
  qed
  show "snd (?rs ! k) = fst (?rs ! Suc k)" if "Suc k < length ?rs"
  proof -
    from that len have k: "k < ?C" "Suc k < ?C"
      by simp_all
    show ?thesis
    proof (cases "Suc k < ?N")
      case True
      then show ?thesis
        by (simp add: chunk_ranges_nth [OF assms k(1)] chunk_ranges_nth [OF assms k(2)])
    next
      case False
      show ?thesis
      proof (cases "k < ?N")
        case True
        with False have "Suc k = ?N" by simp
        then have "(of_nat (Suc k) :: 32 word) = n"
          by (simp only: n)
        with True False show ?thesis
          by (simp only: chunk_ranges_nth [OF assms k(1)] chunk_ranges_nth [OF assms k(2)]
              if_True if_False fst_conv snd_conv)
      next
        case False
        then show ?thesis
          by (simp add: chunk_ranges_nth [OF assms k(1)] chunk_ranges_nth [OF assms k(2)])
      qed
    qed
  qed
qed

lemma concat_singletons: "concat (map (\<lambda>k. [g k]) ks) = map g ks"
  by (induction ks) simp_all

lemma chunk_closures_calls:
  assumes "0 < n"
  shows "\<forall>c \<in> set (chunk_closures (chunk_ranges (max a n) n) (Fn f)).
      \<exists>start end. c = Chunk start end (Fn f) \<and> start < end \<and>
        invoke c = Some (map of_nat [unat start..<unat end])"
    and "concat (map (\<lambda>c. the (invoke c)) (chunk_closures (chunk_ranges (max a n) n) (Fn f)))
      = map of_nat [0..<unat n]"
proof -
  let ?cs = "chunk_closures (chunk_ranges (max a n) n) (Fn f)"
  have u: "unat (of_nat k :: 32 word) = k" "unat (of_nat (Suc k) :: 32 word) = Suc k"
    if "k < unat n" for k
  proof -
    from that have "k \<le> unat n" "Suc k \<le> unat n"
      by simp_all
    then show "unat (of_nat k :: 32 word) = k" "unat (of_nat (Suc k) :: 32 word) = Suc k"
      by (simp_all only: unat_of_nat_below)
  qed
  show "\<forall>c \<in> set ?cs. \<exists>start end. c = Chunk start end (Fn f) \<and> start < end \<and>
        invoke c = Some (map of_nat [unat start..<unat end])"
  proof
    fix c assume "c \<in> set ?cs"
    then obtain k where k: "k < unat n" and c: "c = Chunk (of_nat k) (of_nat (Suc k)) (Fn f)"
      unfolding chunk_closures_explicit [OF assms] by auto
    have "(of_nat k :: 32 word) < of_nat (Suc k)"
      using u [OF k] by (simp only: word_less_nat_alt lessI)
    moreover have "invoke c =
        Some (map of_nat [unat (of_nat k :: 32 word)..<unat (of_nat (Suc k) :: 32 word)])"
      unfolding c by (simp only: invoke.simps chunk_body_calls)
    ultimately show "\<exists>start end. c = Chunk start end (Fn f) \<and> start < end \<and>
        invoke c = Some (map of_nat [unat start..<unat end])"
      using c by blast
  qed
  have calls: "map (\<lambda>c. the (invoke c)) ?cs = map (\<lambda>k. [of_nat k]) [0..<unat n]"
    unfolding chunk_closures_explicit [OF assms] map_map
  proof (rule map_cong [OF refl])
    fix k assume "k \<in> set [0..<unat n]"
    then have k: "k < unat n" by simp
    have "invoke (Chunk (of_nat k) (of_nat (Suc k)) (Fn f)) =
        Some (map of_nat [unat (of_nat k :: 32 word)..<unat (of_nat (Suc k) :: 32 word)])"
      by (simp only: invoke.simps chunk_body_calls)
    then show "((\<lambda>c. the (invoke c)) \<circ> (\<lambda>k. Chunk (of_nat k) (of_nat (Suc k)) (Fn f))) k
        = [of_nat k]"
      by (simp only: comp_def u [OF k]) simp
  qed
  show "concat (map (\<lambda>c. the (invoke c)) ?cs) = map of_nat [0..<unat n]"
    unfolding calls by (rule concat_singletons)
qed

text \<open>
  C1. For \<open>n > 0\<close>, \<open>bulk_schedule(n, f, p)\<close> goes through
  \<open>max (active_threads * 8) n\<close> chunks (in \<^verbatim>\<open>uint32_t\<close> arithmetic, as the code computes it).
  Their ranges are contiguous: the first starts at 0, each starts where the one before
  ends, the last ends at \<open>n\<close>. The size of chunk \<open>k\<close> is \<open>n div chunks\<close>, plus one for the first
  \<open>n mod chunks\<close> chunks. One closure is passed to \<open>schedule\<close> per non-empty chunk, in
  order; each closure calls \<open>f\<close> on the indices of its range in ascending order, and
  all the calls together are \<open>f(0), \<dots>, f(n - 1)\<close>, each once.
\<close>

theorem bulk_schedule_partitions_the_range:
  assumes "0 < n"
  shows
    "let num_chunks = max (active_thread_count s * 8) n;
         chunk_size = n div num_chunks;
         remainder = n mod num_chunks;
         ranges = chunk_ranges num_chunks n;
         closures = chunk_closures ranges (Fn f)
     in length ranges = unat num_chunks \<and>
        fst (hd ranges) = 0 \<and> snd (last ranges) = n \<and>
        (\<forall>k. Suc k < length ranges \<longrightarrow> snd (ranges ! k) = fst (ranges ! Suc k)) \<and>
        (\<forall>k < length ranges.
           unat (snd (ranges ! k)) =
             unat (fst (ranges ! k)) + unat chunk_size + (if k < unat remainder then 1 else 0)) \<and>
        bulk_schedule s n (Fn f) p = schedule_all s (map (\<lambda>c. (Fn c, p)) closures) \<and>
        (\<forall>c \<in> set closures. \<exists>start end. c = Chunk start end (Fn f) \<and> start < end \<and>
           invoke c = Some (map of_nat [unat start..<unat end])) \<and>
        concat (map (\<lambda>c. the (invoke c)) closures) = map of_nat [0..<unat n]"
proof -
  let ?a = "active_thread_count s * 8"
  have len: "length (chunk_ranges (max ?a n) n) = unat (max ?a n)"
    by (simp add: chunk_ranges_def)
  show ?thesis
    unfolding Let_def
  proof (intro conjI allI impI)
    show "length (chunk_ranges (max ?a n) n) = unat (max ?a n)"
      by (rule len)
    show "fst (hd (chunk_ranges (max ?a n) n)) = 0"
      using assms by (rule chunk_ranges_contiguous(1))
    show "snd (last (chunk_ranges (max ?a n) n)) = n"
      using assms by (rule chunk_ranges_contiguous(2))
    show "snd (chunk_ranges (max ?a n) n ! k) = fst (chunk_ranges (max ?a n) n ! Suc k)"
      if "Suc k < length (chunk_ranges (max ?a n) n)" for k
      using assms that by (rule chunk_ranges_contiguous(3))
    show "unat (snd (chunk_ranges (max ?a n) n ! k)) =
        unat (fst (chunk_ranges (max ?a n) n ! k)) + unat (n div max ?a n) +
          (if k < unat (n mod max ?a n) then 1 else 0)"
      if "k < length (chunk_ranges (max ?a n) n)" for k
      using assms that [unfolded len] by (rule chunk_sizes)
    show "bulk_schedule s n (Fn f) p =
        schedule_all s (map (\<lambda>c. (Fn c, p))
          (chunk_closures (chunk_ranges (max ?a n) n) (Fn f)))"
      using assms by (rule bulk_schedule_submits)
    show "\<forall>c \<in> set (chunk_closures (chunk_ranges (max ?a n) n) (Fn f)).
        \<exists>start end. c = Chunk start end (Fn f) \<and> start < end \<and>
          invoke c = Some (map of_nat [unat start..<unat end])"
      using assms by (rule chunk_closures_calls(1))
    show "concat (map (\<lambda>c. the (invoke c))
          (chunk_closures (chunk_ranges (max ?a n) n) (Fn f))) = map of_nat [0..<unat n]"
      using assms by (rule chunk_closures_calls(2))
  qed
qed

lemma chunk_ranges_8_3:
  "chunk_ranges 8 3 = [(0, 1), (1, 2), (2, 3), (3, 3), (3, 3), (3, 3), (3, 3), (3, 3)]"
  by (simp add: chunk_ranges_def chunk_range_def upt_conv_Cons word_div_less32 word_mod_less32)

theorem bulk_schedule_partitions_the_range_witness:
  "(0 :: 32 word) < 3 \<and>
   chunk_ranges (max (active_thread_count
       (new_system_scheduler 1 NORMAL 1 :: (nat, nat) callable system_scheduler) * 8) 3) 3
     = [(0, 1), (1, 2), (2, 3), (3, 3), (3, 3), (3, 3), (3, 3), (3, 3)] \<and>
   bulk_schedule (new_system_scheduler 1 NORMAL 1 :: (nat, nat) callable system_scheduler)
       3 (Fn 0) LOW
     = schedule_all (new_system_scheduler 1 NORMAL 1)
         [(Fn (Chunk 0 1 (Fn 0)), LOW), (Fn (Chunk 1 2 (Fn 0)), LOW),
          (Fn (Chunk 2 3 (Fn 0)), LOW)] \<and>
   concat (map (\<lambda>c. the (invoke c))
       [Chunk 0 1 (Fn 0) :: (nat, nat) callable, Chunk 1 2 (Fn 0), Chunk 2 3 (Fn 0)])
     = [0, 1, 2]"
proof -
  let ?s = "new_system_scheduler 1 NORMAL 1 :: (nat, nat) callable system_scheduler"
  have pos: "(0 :: 32 word) < 3"
    by simp
  have count: "max (active_thread_count ?s * 8) 3 = 8"
    by (simp add: new_system_scheduler_def)
  have closures: "chunk_closures (chunk_ranges 8 3) (Fn 0) =
      [Chunk 0 1 (Fn 0) :: (nat, nat) callable, Chunk 1 2 (Fn 0), Chunk 2 3 (Fn 0)]"
    by (simp add: chunk_closures_def chunk_ranges_8_3)
  note inst = bulk_schedule_partitions_the_range [OF pos, of ?s 0 LOW, unfolded Let_def count]
  from inst have submitted: "bulk_schedule ?s 3 (Fn 0) LOW =
      schedule_all ?s (map (\<lambda>c. (Fn c, LOW)) (chunk_closures (chunk_ranges 8 3) (Fn 0)))"
    by (elim conjE)
  from inst have calls: "concat (map (\<lambda>c. the (invoke c))
        (chunk_closures (chunk_ranges 8 3) (Fn 0) :: (nat, nat) callable list))
      = map of_nat [0..<unat (3 :: 32 word)]"
    by (elim conjE)
  have "chunk_ranges (max (active_thread_count ?s * 8) 3) 3
      = [(0, 1), (1, 2), (2, 3), (3, 3), (3, 3), (3, 3), (3, 3), (3, 3)]"
    unfolding count by (rule chunk_ranges_8_3)
  moreover have "bulk_schedule ?s 3 (Fn 0) LOW =
      schedule_all ?s [(Fn (Chunk 0 1 (Fn 0)), LOW), (Fn (Chunk 1 2 (Fn 0)), LOW),
          (Fn (Chunk 2 3 (Fn 0)), LOW)]"
    unfolding submitted closures by simp
  moreover have "concat (map (\<lambda>c. the (invoke c))
       [Chunk 0 1 (Fn 0) :: (nat, nat) callable, Chunk 1 2 (Fn 0), Chunk 2 3 (Fn 0)])
     = [0, 1, 2]"
    using calls unfolding closures by (simp add: upt_conv_Cons)
  ultimately show ?thesis
    using pos by (intro conjI)
qed

section \<open>Round-robin placement\<close>

lemma resize_keeps_indices:
  "resize d = Some d' \<Longrightarrow> bottom_ix d' = bottom_ix d \<and> top_ix d' = top_ix d"
  by (auto simp: resize_def Let_def bind_eq_Some_conv split: if_splits)

lemma push_advances_bottom:
  assumes "push d task = Some d'"
  shows "bottom_ix d' = bottom_ix d + 1 \<and> top_ix d' = top_ix d"
proof -
  from assms obtain d1 where
    d1: "(if capacity d \<le> bottom_ix d - top_ix d then resize d else Some d) = Some d1"
    and rest: "\<exists>buf b1. as_int (bottom_ix d1 + 1) = Some b1 \<and> d' = d1\<lparr>buffer := buf, bottom_ix := b1\<rparr>"
    by (auto simp: push_def Let_def bind_eq_Some_conv as_int_def split: if_splits)
  from d1 have "bottom_ix d1 = bottom_ix d \<and> top_ix d1 = top_ix d"
    by (auto split: if_splits dest: resize_keeps_indices)
  with rest show ?thesis
    by (auto simp: as_int_def split: if_splits)
qed

lemma sum_list_map_update:
  fixes f :: "'x \<Rightarrow> int"
  shows "i < length xs \<Longrightarrow> sum_list (map f (xs[i := y])) = sum_list (map f xs) - f (xs ! i) + f y"
proof (induction xs arbitrary: i)
  case Nil
  then show ?case by simp
next
  case (Cons x xs)
  then show ?case by (cases i) simp_all
qed

lemma push_task_pushed:
  assumes "push_task q prio task = Some q'"
  shows "pushed q' = pushed q + 1 \<and> active q' = active q"
proof -
  from push_task_cases [OF assms] obtain d d' where
    d: "vec_at (task_queues q) prio = Some d" and d': "push d task = Some d'"
    and q': "q' = q\<lparr>task_queues := (task_queues q)[nat prio := d']\<rparr>"
    by blast
  from d have range: "nat prio < length (task_queues q)" and nth: "task_queues q ! nat prio = d"
    by (auto simp: vec_at_def split: if_splits)
  from push_advances_bottom [OF d'] have "bottom_ix d' = bottom_ix d + 1"
    by simp
  with range nth show ?thesis
    unfolding q' pushed_def by (simp add: sum_list_map_update)
qed

lemma residue_hit:
  assumes "i < N"
  shows "(Suc (c + (N - Suc i)) mod N = 0) = (c mod N = i)"
proof -
  let ?r = "c mod N"
  from assms have r: "?r < N"
    by simp
  from assms have "Suc (c + (N - Suc i)) = c + (N - i)"
    by simp
  then have "Suc (c + (N - Suc i)) mod N = (c + (N - i)) mod N"
    by (simp only:)
  also have "\<dots> = (?r + (N - i)) mod N"
    by (rule mod_add_left_eq [symmetric])
  finally have eq: "Suc (c + (N - Suc i)) mod N = (?r + (N - i)) mod N" .
  have "((?r + (N - i)) mod N = 0) = (?r = i)"
  proof (cases "?r < i")
    case True
    with assms have less: "?r + (N - i) < N" and pos: "?r + (N - i) \<noteq> 0"
      by arith+
    from less have "(?r + (N - i)) mod N = ?r + (N - i)"
      by (rule mod_less)
    with pos True show ?thesis
      by arith
  next
    case False
    with assms have "?r + (N - i) = N + (?r - i)"
      by simp
    moreover from r have "?r - i < N"
      by simp
    ultimately have "(?r + (N - i)) mod N = ?r - i"
      by simp
    with False show ?thesis
      by simp
  qed
  then show ?thesis
    unfolding eq .
qed

lemma residue_count_Suc:
  assumes "i < N"
  shows "residue_count N i (Suc c) = residue_count N i c + (if c mod N = i then 1 else 0)"
  using residue_hit [OF assms, of c]
  unfolding residue_count_def by (simp add: div_Suc)

lemma residue_count_block:
  assumes "0 < N"
  shows "residue_count N i (c + k * N) = residue_count N i c + k"
proof -
  have "c + k * N + (N - Suc i) = (c + (N - Suc i)) + k * N"
    by simp
  with assms show ?thesis
    unfolding residue_count_def by (simp only: div_mult_self1 div_mult_self3) 
qed

lemma schedule_step:
  assumes ok: "running_all_active s" and sched: "schedule s task priority = Some s'"
  shows "running_all_active s'"
    and "next_queue s' = next_queue s + 1"
    and "length (work_queues s') = length (work_queues s)"
    and "i < length (work_queues s) \<Longrightarrow>
      pushed (work_queues s' ! i) = pushed (work_queues s ! i) +
        (if i = unat (next_queue s) mod length (work_queues s) then 1 else 0)"
proof -
  let ?qs = "work_queues s" and ?N = "length (work_queues s)"
  let ?c0 = "next_queue s mod num_queues s"
  from ok have running: "\<not> stop_flag s" and num: "unat (num_queues s) = ?N"
    and pos: "0 < ?N" and act: "list_all active ?qs"
    by (simp_all add: running_all_active_def)
  have c0: "unat ?c0 = unat (next_queue s) mod ?N"
    by (simp add: unat_mod num)
  with pos have c0_lt: "unat ?c0 < ?N"
    by simp
  have u: "uint ?c0 = int (unat ?c0)"
    by (rule uint_nat)
  have at: "vec_at ?qs (uint ?c0) = Some (?qs ! unat ?c0)"
    unfolding vec_at_def u using c0_lt
    by (simp only: of_nat_0_le_iff of_nat_less_iff nat_int if_True simp_thms)
  from act c0_lt have "active (?qs ! unat ?c0)"
    by (simp add: list_all_length)
  with at have first: "next_active ?qs (num_queues s) ?c0 = Some ?c0"
    by (rule next_active_here)
  from schedule_running [OF running sched] obtain chosen q q' where
    chosen: "next_active ?qs (num_queues s) ?c0 = Some chosen"
    and q: "vec_at ?qs (uint chosen) = Some q"
    and pushed: "push_task q (priority_int priority) task = Some q'"
    and s': "s' = s\<lparr>next_queue := next_queue s + 1, work_queues := ?qs[unat chosen := q']\<rparr>"
    by blast
  from first chosen have chosen_eq: "chosen = ?c0"
    by simp
  with q at have q_eq: "q = ?qs ! unat ?c0"
    by simp
  from push_task_pushed [OF pushed] have q': "pushed q' = pushed q + 1" "active q' = active q"
    by simp_all
  show "next_queue s' = next_queue s + 1"
    by (simp add: s')
  show len: "length (work_queues s') = ?N"
    by (simp add: s')
  have "list_all active (work_queues s')"
    unfolding list_all_length
  proof (intro allI impI)
    fix j assume "j < length (work_queues s')"
    with act q' q_eq show "active (work_queues s' ! j)"
      by (cases "j = unat ?c0") (simp_all add: s' chosen_eq list_all_length)
  qed
  with running num pos len show "running_all_active s'"
    by (simp add: running_all_active_def s')
  show "pushed (work_queues s' ! i) = pushed (?qs ! i) +
        (if i = unat (next_queue s) mod ?N then 1 else 0)" if "i < ?N"
    using that q' q_eq by (simp add: s' chosen_eq c0 [symmetric] nth_list_update)
qed

lemma schedule_all_counts:
  assumes "schedule_all s calls = Some s'" "running_all_active s"
    and "next_queue s = of_nat c" "c + length calls \<le> 2 ^ 64" "i < length (work_queues s)"
  shows "length (work_queues s') = length (work_queues s) \<and>
     pushed (work_queues s' ! i) + int (residue_count (length (work_queues s)) i c) =
     pushed (work_queues s ! i) +
       int (residue_count (length (work_queues s)) i (c + length calls))"
  using assms
proof (induction calls arbitrary: s c)
  case Nil
  then show ?case by simp
next
  case (Cons call calls)
  obtain task priority where call: "call = (task, priority)"
    by (cases call)
  from Cons.prems(1) obtain s1 where
    first: "schedule s task priority = Some s1" and rest: "schedule_all s1 calls = Some s'"
    by (auto simp: call bind_eq_Some_conv)
  let ?N = "length (work_queues s)"
  from Cons.prems(4) have c: "c < 2 ^ 64"
    by simp
  then have "unat (of_nat c :: 64 word) = c"
    by (simp add: unat_of_nat)
  with Cons.prems(3) have counter: "unat (next_queue s) = c"
    by simp
  note step = schedule_step [OF Cons.prems(2) first]
  from step(2) Cons.prems(3) have next1: "next_queue s1 = of_nat (Suc c)"
    by simp
  from step(3) Cons.prems(5) have i1: "i < length (work_queues s1)"
    by simp
  from Cons.prems(4) have bound: "Suc c + length calls \<le> 2 ^ 64"
    by simp
  from Cons.IH [OF rest step(1) next1 bound i1] step(3)
  have ih: "length (work_queues s') = ?N"
    "pushed (work_queues s' ! i) + int (residue_count ?N i (Suc c)) =
      pushed (work_queues s1 ! i) + int (residue_count ?N i (Suc c + length calls))"
    by simp_all
  from step(4) [OF Cons.prems(5)] counter
  have one: "pushed (work_queues s1 ! i) =
      pushed (work_queues s ! i) + (if i = c mod ?N then 1 else 0)"
    by simp
  from Cons.prems(5) have "residue_count ?N i (Suc c) =
      residue_count ?N i c + (if c mod ?N = i then 1 else 0)"
    by (rule residue_count_Suc)
  with ih one show ?case
    by (auto split: if_splits)
qed

lemma replicate_three: "replicate 3 x = [x, x, x]"
  by (simp add: numeral_3_eq_3)

text \<open>
  C8. For every \<open>k \<ge> 1\<close> and every idle scheduler with \<open>N\<close> queues, all active, \<open>k * N\<close>
  calls of \<open>schedule\<close> deposit exactly \<open>k\<close> tasks in each queue. Not in every state: the
  counter \<open>next_queue\<close> is a 64-bit \<^verbatim>\<open>size_t\<close>, and when it wraps from \<open>2^64 - 1\<close> to 0 with
  \<open>N = 3\<close> queues, three calls put two tasks in queue 0, one in queue 1 and none in queue
  2 (\<open>2^64 - 1\<close> and 0 are both 0 modulo 3); and once the stop flag is set the calls
  deposit nothing.
\<close>

theorem round_robin_uneven_at_wrap_and_none_after_stop:
  "running_all_active
     ((new_system_scheduler 3 NORMAL 3 :: nat system_scheduler)
        \<lparr>next_queue := 18446744073709551615\<rparr>) \<and>
   map pushed (work_queues (new_system_scheduler 3 NORMAL 3 :: nat system_scheduler)) = [0, 0, 0] \<and>
   map_option (\<lambda>s'. map pushed (work_queues s'))
     (schedule_all
        ((new_system_scheduler 3 NORMAL 3 :: nat system_scheduler)
           \<lparr>next_queue := 18446744073709551615\<rparr>)
        [(Fn 1, NORMAL), (Fn 2, NORMAL), (Fn 3, NORMAL)])
     = Some [2, 1, 0] \<and>
   map_option (\<lambda>s'. map pushed (work_queues s'))
     (schedule_all (set_stopped (new_system_scheduler 3 NORMAL 3 :: nat system_scheduler))
        [(Fn 1, NORMAL), (Fn 2, NORMAL), (Fn 3, NORMAL)])
     = Some [0, 0, 0]"
  by (simp add: running_all_active_def pushed_def scheduler_defs machine_defs deque_defs
      replicate_three)

text \<open>
  C8, amended. On a scheduler that is running, with \<open>N\<close> queues, all active, and
  otherwise idle, \<open>k * N\<close> calls of \<open>schedule\<close> that all return, during which the counter
  \<open>next_queue\<close> does not wrap around \<open>2^64\<close>, deposit exactly \<open>k\<close> tasks in each of the \<open>N\<close>
  queues.
\<close>

theorem round_robin_coverage:
  assumes "running_all_active s"
    and "length calls = k * length (work_queues s)"
    and "unat (next_queue s) + length calls \<le> 2 ^ 64"
    and "schedule_all s calls = Some s'"
    and "i < length (work_queues s)"
  shows "length (work_queues s') = length (work_queues s) \<and>
    pushed (work_queues s' ! i) = pushed (work_queues s ! i) + int k"
proof -
  let ?N = "length (work_queues s)" and ?c = "unat (next_queue s)"
  have counter: "next_queue s = of_nat ?c"
    by simp
  from assms(1) have pos: "0 < ?N"
    by (simp add: running_all_active_def)
  from schedule_all_counts [OF assms(4) assms(1) counter assms(3) assms(5)]
  have len: "length (work_queues s') = ?N"
    and counts: "pushed (work_queues s' ! i) + int (residue_count ?N i ?c) =
      pushed (work_queues s ! i) + int (residue_count ?N i (?c + length calls))"
    by simp_all
  from pos have "residue_count ?N i (?c + k * ?N) = residue_count ?N i ?c + k"
    by (rule residue_count_block)
  with counts assms(2) have "pushed (work_queues s' ! i) = pushed (work_queues s ! i) + int k"
    by simp
  with len show ?thesis
    by simp
qed

theorem round_robin_coverage_witness:
  "running_all_active (new_system_scheduler 2 NORMAL 2 :: nat system_scheduler) \<and>
   length [(Fn (1 :: nat), NORMAL), (Fn 2, HIGH), (Fn 3, LOW), (Fn 4, NORMAL)]
     = 2 * length (work_queues (new_system_scheduler 2 NORMAL 2 :: nat system_scheduler)) \<and>
   map_option (\<lambda>s'. map pushed (work_queues s'))
     (schedule_all (new_system_scheduler 2 NORMAL 2 :: nat system_scheduler)
        [(Fn 1, NORMAL), (Fn 2, HIGH), (Fn 3, LOW), (Fn 4, NORMAL)])
     = Some [2, 2] \<and>
   pushed (work_queues (the (schedule_all (new_system_scheduler 2 NORMAL 2 :: nat system_scheduler)
        [(Fn 1, NORMAL), (Fn 2, HIGH), (Fn 3, LOW), (Fn 4, NORMAL)])) ! 1)
     = pushed (work_queues (new_system_scheduler 2 NORMAL 2 :: nat system_scheduler) ! 1) + int 2"
proof -
  let ?s = "new_system_scheduler 2 NORMAL 2 :: nat system_scheduler"
  let ?calls = "[(Fn (1 :: nat), NORMAL), (Fn 2, HIGH), (Fn 3, LOW), (Fn 4, NORMAL)]"
  have ok: "running_all_active ?s"
    by (simp add: running_all_active_def new_system_scheduler_def new_work_queue_list
        replicate_two)
  have len: "length ?calls = 2 * length (work_queues ?s)"
    by (simp add: new_system_scheduler_def)
  have nowrap: "unat (next_queue ?s) + length ?calls \<le> 2 ^ 64"
    by (simp add: new_system_scheduler_def)
  have run: "map_option (\<lambda>s'. map pushed (work_queues s')) (schedule_all ?s ?calls) = Some [2, 2]"
    by (simp add: pushed_def scheduler_defs machine_defs deque_defs replicate_two)
  then have "\<exists>s'. schedule_all ?s ?calls = Some s'"
    by (cases "schedule_all ?s ?calls") simp_all
  then have returned: "schedule_all ?s ?calls = Some (the (schedule_all ?s ?calls))"
    by (elim exE) (simp only: option.sel)
  have i: "1 < length (work_queues ?s)"
    by (simp add: new_system_scheduler_def)
  from round_robin_coverage [OF ok len nowrap returned i]
  have "pushed (work_queues (the (schedule_all ?s ?calls)) ! 1)
      = pushed (work_queues ?s ! 1) + int 2"
    by (elim conjE)
  with ok len run show ?thesis
    by (intro conjI)
qed

end
